theory Spec2Isabelle
  imports Main
begin

section \<open>Data model of the screen locker's application controller\<close>

text \<open>
  The controller (\<open>Application\<close> in \<open>application.cpp\<close>) owns an ordered list of pointers to
  overlay windows (\<open>m_views\<close>, a \<open>QList<QQuickView *>\<close>).  Pointers are natural numbers; the
  windows themselves live in a store that maps a pointer to the window's properties, so that
  two list entries holding the same pointer alias the same window.  Calls into the toolkit that
  only act on the outside world (raising a window, requesting activation or the keyboard grab
  of the window system, sending an event,
  warnings, scheduling a deletion, queueing a call, leaving the event loop) are appended to a trace in the order
  in which the code makes them.
\<close>

type_synonym view_ptr = nat
type_synonym screen_ptr = nat

record QRect =
  rect_x :: int
  rect_y :: int
  rect_w :: int
  rect_h :: int

record QPoint =
  pt_x :: int
  pt_y :: int

text \<open>
  \<open>QRect::contains(QPoint)\<close> of the toolkit, for a rectangle of non-negative size: the
  right and bottom edges are \<open>x + width - 1\<close> and \<open>y + height - 1\<close>.
\<close>

definition contains :: "QRect \<Rightarrow> QPoint \<Rightarrow> bool" where
  "contains r p =
     (rect_x r \<le> pt_x p \<and> pt_x p \<le> rect_x r + rect_w r - 1 \<and>
      rect_y r \<le> pt_y p \<and> pt_y p \<le> rect_y r + rect_h r - 1)"

datatype event_type = Show | MouseButtonPress | KeyPress | KeyRelease | OtherEvent nat

record QEvent =
  etype :: event_type
  key :: int
  accepted :: bool

definition Key_Escape :: int where
  "Key_Escape = 16777216"

datatype visibility = Hidden | Windowed | FullScreen

datatype resize_mode = SizeViewToRootObject | SizeRootObjectToView

datatype color = DefaultColor | Black

record QQuickView =
  created :: bool
  authenticatorProperty :: bool
  source :: string
  resizeMode :: resize_mode
  viewColor :: color
  geometry :: QRect
  frameless :: bool
  frameSwappedConnected :: bool
  screen :: "screen_ptr option"
  visible :: visibility
  viewVisible :: bool
  activeFocusItem :: "nat option"
  deleted :: bool

datatype easing = Linear | OutSine

record animation =
  target :: view_ptr
  duration :: nat
  easingCurve :: easing
  startValue :: int
  endValue :: int

datatype qobject = AppObj | ViewObj view_ptr | OtherObj nat

datatype effect =
    DeleteLater view_ptr
  | Raise view_ptr
  | RequestActivate view_ptr
  | SendEvent view_ptr QEvent bool
  | SetKeyboardGrabEnabled view_ptr bool
  | Warning string
  | QueuedGetFocus
  | Exit

text \<open>
  What the controller reads from the toolkit but does not own: the connected screens in the
  toolkit's order, each screen's geometry, the primary screen (null when there is none), the
  cursor position, and what a window's own event handler does to the accepted flag of an event
  delivered to it.
\<close>

record env =
  screens :: "screen_ptr list"
  screenGeometry :: "screen_ptr \<Rightarrow> QRect"
  primaryScreen :: "screen_ptr option"
  cursor :: QPoint
  viewEvent :: "view_ptr \<Rightarrow> QEvent \<Rightarrow> bool"

record app =
  m_views :: "view_ptr list"
  m_testing :: bool
  views :: "view_ptr \<Rightarrow> QQuickView"
  next_view :: view_ptr
  filterInstalled :: bool
  geometryConnections :: "screen_ptr list"
  animations :: "animation list"
  trace :: "effect list"

definition emit :: "effect \<Rightarrow> app \<Rightarrow> app" where
  "emit x s = s\<lparr>trace := trace s @ [x]\<rparr>"

definition update_view :: "view_ptr \<Rightarrow> (QQuickView \<Rightarrow> QQuickView) \<Rightarrow> app \<Rightarrow> app" where
  "update_view p f s = s\<lparr>views := (views s)(p := f (views s p))\<rparr>"

text \<open>
  A state is well formed when the pointers in \<open>m_views\<close> are pairwise different and have all
  been handed out by the allocator: \<open>new\<close> never returns the address of a live object.
\<close>

definition wf :: "app \<Rightarrow> bool" where
  "wf s = (distinct (m_views s) \<and> list_all (\<lambda>p. p < next_view s) (m_views s))"

section \<open>Application::desktopResized\<close>

text \<open>The first loop: \<open>while (m_views.count() > nScreens) m_views.takeLast()->deleteLater();\<close>\<close>

function removeUseless :: "nat \<Rightarrow> app \<Rightarrow> app" where
  "removeUseless nScreens s =
     (if length (m_views s) > nScreens
      then removeUseless nScreens
             (emit (DeleteLater (last (m_views s))) (s\<lparr>m_views := butlast (m_views s)\<rparr>))
      else s)"
  by pat_completeness auto
termination
  by (relation "measure (\<lambda>(n, s). length (m_views s))") (auto simp: emit_def)

declare removeUseless.simps [simp del]

text \<open>\<open>new QQuickView\<close>: a window on the primary screen with the toolkit's defaults.\<close>

definition new_QQuickView :: "env \<Rightarrow> QQuickView" where
  "new_QQuickView e =
     \<lparr>created = False, authenticatorProperty = False, source = [],
      resizeMode = SizeViewToRootObject, viewColor = DefaultColor,
      geometry = \<lparr>rect_x = 0, rect_y = 0, rect_w = 0, rect_h = 0\<rparr>,
      frameless = False, frameSwappedConnected = False, screen = primaryScreen e,
      visible = Hidden, viewVisible = False,
      activeFocusItem = None, deleted = False\<rparr>"

text \<open>The body of the second loop, for loop index \<open>i\<close>.\<close>

definition createView :: "env \<Rightarrow> nat \<Rightarrow> app \<Rightarrow> app" where
  "createView e i s =
     (let view = next_view s;
          scr = screens e ! i;
          v0 = new_QQuickView e;
          v1 = v0\<lparr>created := True\<rparr>;
          v2 = v1\<lparr>authenticatorProperty := True\<rparr>;
          v3 = v2\<lparr>source := ''qrc:/qml/LockScreen.qml''\<rparr>;
          v4 = v3\<lparr>resizeMode := SizeRootObjectToView\<rparr>;
          v5 = v4\<lparr>viewColor := Black\<rparr>;
          v6 = v5\<lparr>geometry := screenGeometry e scr\<rparr>;
          v7 = (if \<not> m_testing s then v6\<lparr>frameless := True\<rparr> else v6);
          v8 = v7\<lparr>geometry := screenGeometry e scr\<rparr>;
          v9 = v8\<lparr>frameSwappedConnected := True\<rparr>
      in s\<lparr>views := (views s)(view := v9),
            next_view := Suc (next_view s),
            m_views := m_views s @ [view]\<rparr>)"

function extendViews :: "env \<Rightarrow> nat \<Rightarrow> nat \<Rightarrow> app \<Rightarrow> app" where
  "extendViews e i nScreens s =
     (if i < nScreens then extendViews e (Suc i) nScreens (createView e i s) else s)"
  by pat_completeness auto
termination
  by (relation "measure (\<lambda>(e, i, n, s). n - i)") auto

declare extendViews.simps [simp del]

text \<open>The body of the third loop, for loop index \<open>i\<close>.\<close>

definition showView :: "env \<Rightarrow> nat \<Rightarrow> app \<Rightarrow> app" where
  "showView e i s =
     (let view = m_views s ! i;
          scr = screens e ! i;
          s1 = update_view view (\<lambda>v. v\<lparr>screen := Some scr\<rparr>) s;
          s2 = (if m_testing s1 then update_view view (\<lambda>v. v\<lparr>visible := Windowed\<rparr>) s1
                else update_view view (\<lambda>v. v\<lparr>visible := FullScreen\<rparr>) s1)
      in emit (Raise view) s2)"

function updateViews :: "env \<Rightarrow> nat \<Rightarrow> nat \<Rightarrow> app \<Rightarrow> app" where
  "updateViews e i nScreens s =
     (if i < nScreens then updateViews e (Suc i) nScreens (showView e i s) else s)"
  by pat_completeness auto
termination
  by (relation "measure (\<lambda>(e, i, n, s). n - i)") auto

declare updateViews.simps [simp del]

definition desktopResized :: "env \<Rightarrow> app \<Rightarrow> app" where
  "desktopResized e s =
     (let nScreens = length (screens e);
          s1 = removeUseless nScreens s;
          s2 = extendViews e (length (m_views s1)) nScreens s1
      in updateViews e 0 nScreens s2)"

section \<open>Construction, screen signals, destruction\<close>

text \<open>
  The constructor installs the application's event filter on itself and starts with no views.
  The initial value of \<open>m_testing\<close> is set in the class declaration, which is not part of
  \<open>application.cpp\<close>; it is a parameter here.  The store holds \<open>no_view\<close> at every
  address at which no window has been allocated yet.
\<close>

definition no_view :: QQuickView where
  "no_view =
     \<lparr>created = False, authenticatorProperty = False, source = [],
      resizeMode = SizeViewToRootObject, viewColor = DefaultColor,
      geometry = \<lparr>rect_x = 0, rect_y = 0, rect_w = 0, rect_h = 0\<rparr>,
      frameless = False, frameSwappedConnected = False, screen = None,
      visible = Hidden, viewVisible = False,
      activeFocusItem = None, deleted = False\<rparr>"

definition Application_new :: "bool \<Rightarrow> app" where
  "Application_new testing =
     \<lparr>m_views = [], m_testing = testing, views = (\<lambda>p. no_view), next_view = 0,
      filterInstalled = True, geometryConnections = [], animations = [], trace = []\<rparr>"

definition initialViewSetup :: "env \<Rightarrow> app \<Rightarrow> app" where
  "initialViewSetup e s =
     desktopResized e
       (fold (\<lambda>scr s. s\<lparr>geometryConnections := geometryConnections s @ [scr]\<rparr>) (screens e) s)"

definition onScreenAdded :: "env \<Rightarrow> screen_ptr \<Rightarrow> app \<Rightarrow> app" where
  "onScreenAdded e scr s =
     desktopResized e (s\<lparr>geometryConnections := geometryConnections s @ [scr]\<rparr>)"

text \<open>
  The destructor takes the focus from the focus item of every view and deletes the views
  (\<open>qDeleteAll\<close> leaves the list itself as it is).
\<close>

definition destructor :: "app \<Rightarrow> app" where
  "destructor s =
     (let s1 = fold (\<lambda>view s.
                  (case activeFocusItem (views s view) of
                     Some focusItem \<Rightarrow> update_view view (\<lambda>v. v\<lparr>activeFocusItem := None\<rparr>) s
                   | None \<Rightarrow> s)) (m_views s) s
      in fold (\<lambda>view s. update_view view (\<lambda>v. v\<lparr>deleted := True\<rparr>) s) (m_views s1) s1)"

section \<open>Application::onSucceeded\<close>

text \<open>
  The coordinates of a rectangle are \<open>int\<close> in the source, 32 bits wide.  \<open>in_int32\<close> says
  that a number is such a value, and \<open>int32\<close> is the value a 32-bit signed operation leaves
  when its exact result is \<open>x\<close>: the result itself when it fits, wrapped around otherwise.
\<close>

definition in_int32 :: "int \<Rightarrow> bool" where
  "in_int32 x = (- 2147483648 \<le> x \<and> x \<le> 2147483647)"

definition int32 :: "int \<Rightarrow> int" where
  "int32 x = (x + 2147483648) mod 4294967296 - 2147483648"

text \<open>
  The loop looks for the first index whose view is on the primary screen, which is
  \<open>find\<close> on the list.  The end value is \<open>y() + -height()\<close>, a negation and an addition on
  32-bit integers.  The animation object carries two callbacks: a value change moves the
  view to the new y coordinate, and the end of the animation leaves the event loop.
\<close>

definition onSucceeded :: "env \<Rightarrow> app \<Rightarrow> app" where
  "onSucceeded e s =
     (case find (\<lambda>view. screen (views s view) = primaryScreen e) (m_views s) of
        Some mainView \<Rightarrow>
          s\<lparr>animations := animations s @
              [\<lparr>target = mainView, duration = 500, easingCurve = OutSine,
                startValue = rect_y (geometry (views s mainView)),
                endValue = int32 (rect_y (geometry (views s mainView)) +
                                  int32 (- rect_h (geometry (views s mainView))))\<rparr>]\<rparr>
      | None \<Rightarrow> emit Exit s)"

definition animationValueChanged :: "animation \<Rightarrow> int \<Rightarrow> app \<Rightarrow> app" where
  "animationValueChanged a v s =
     update_view (target a) (\<lambda>w. w\<lparr>geometry := (geometry w)\<lparr>rect_y := v\<rparr>\<rparr>) s"

definition animationFinished :: "animation \<Rightarrow> app \<Rightarrow> app" where
  "animationFinished a s = emit Exit s"

section \<open>Application::getActiveScreen, getFocus, markViewsAsVisible\<close>

definition getActiveScreen :: "env \<Rightarrow> app \<Rightarrow> view_ptr option" where
  "getActiveScreen e s =
     (if m_views s = [] then None
      else (case find (\<lambda>view. contains (geometry (views s view)) (cursor e)) (m_views s) of
              Some view \<Rightarrow> Some view
            | None \<Rightarrow> Some (hd (m_views s))))"

text \<open>
  \<open>QWindow::setKeyboardGrabEnabled\<close> asks the window system to give or to take away the
  keyboard grab of a window.  Whether the window system grants it, which window holds it and
  what becomes of it when a window is destroyed are not the program's to decide, and the
  program discards the call's result; the model records the call and its argument.
\<close>

definition setKeyboardGrabEnabled :: "view_ptr \<Rightarrow> bool \<Rightarrow> app \<Rightarrow> app" where
  "setKeyboardGrabEnabled view b s = emit (SetKeyboardGrabEnabled view b) s"

definition getFocus :: "env \<Rightarrow> app \<Rightarrow> app" where
  "getFocus e s =
     (case getActiveScreen e s of
        None \<Rightarrow> s
      | Some activeScreen \<Rightarrow>
          (let s1 = fold (\<lambda>view s. if \<not> m_testing s then setKeyboardGrabEnabled view True s else s)
                      (m_views s) s;
               s2 = (if \<not> m_testing s1 then setKeyboardGrabEnabled activeScreen True s1 else s1)
           in emit (RequestActivate activeScreen) s2))"

definition markViewsAsVisible :: "view_ptr \<Rightarrow> app \<Rightarrow> app" where
  "markViewsAsVisible view s =
     (let s1 = update_view view (\<lambda>v. v\<lparr>frameSwappedConnected := False\<rparr>) s;
          s2 = update_view view (\<lambda>v. v\<lparr>viewVisible := True\<rparr>) s1
      in emit QueuedGetFocus s2)"

section \<open>Event delivery: sendEvent, Application::shareEvent, Application::eventFilter\<close>

text \<open>
  \<open>QCoreApplication::sendEvent\<close> belongs to the toolkit.  It first offers the event to the
  event filters installed on the application object and hands it to the receiver's own handler
  only when no filter consumed it.  The only filter this program installs is the application
  itself, so the filter to run, when \<open>filterInstalled\<close> holds, is \<open>Application::eventFilter\<close>.
  That makes \<open>sendEvent\<close>, \<open>shareEvent\<close> and \<open>eventFilter\<close> mutually recursive; the
  recursion is cut by passing the filter as an argument and by giving \<open>eventFilter\<close> a bound on
  the nesting depth, with \<open>None\<close> for a call that exceeds the bound.  Each call of
  \<open>sendEvent\<close> is recorded in the trace with the receiver, the event as it was sent, and
  whether the filter was installed at that moment.  The receiver's own handler is code of the
  toolkit and of the declarative user interface: it decides the accepted flag of the event
  (\<open>viewEvent\<close>) and does not call back into the controller.
\<close>

type_synonym filter_cb = "qobject \<Rightarrow> QEvent \<Rightarrow> app \<Rightarrow> (bool \<times> QEvent \<times> app) option"

definition sendEvent :: "filter_cb \<Rightarrow> env \<Rightarrow> view_ptr \<Rightarrow> QEvent \<Rightarrow> app \<Rightarrow> (QEvent \<times> app) option" where
  "sendEvent cb e view ev s =
     (let s1 = emit (SendEvent view ev (filterInstalled s)) s
      in if filterInstalled s1
         then (case cb (ViewObj view) ev s1 of
                 None \<Rightarrow> None
               | Some (consumed, ev', s2) \<Rightarrow>
                   if consumed then Some (ev', s2)
                   else Some (ev'\<lparr>accepted := viewEvent e view ev'\<rparr>, s2))
         else Some (ev\<lparr>accepted := viewEvent e view ev\<rparr>, s1))"

text \<open>The loop of \<open>shareEvent\<close> over the views; \<open>acc\<close> is the stored accepted flag.\<close>

fun shareLoop ::
  "filter_cb \<Rightarrow> env \<Rightarrow> view_ptr \<Rightarrow> bool \<Rightarrow> view_ptr list \<Rightarrow> QEvent \<Rightarrow> app \<Rightarrow> (QEvent \<times> app) option"
where
  "shareLoop cb e from acc [] ev s = Some (ev, s)"
| "shareLoop cb e from acc (view # rest) ev s =
     (if view \<noteq> from
      then (case sendEvent cb e view ev s of
              None \<Rightarrow> None
            | Some (ev', s') \<Rightarrow> shareLoop cb e from acc rest (ev'\<lparr>accepted := acc\<rparr>) s')
      else shareLoop cb e from acc rest ev s)"

definition shareEvent ::
  "filter_cb \<Rightarrow> env \<Rightarrow> QEvent \<Rightarrow> view_ptr option \<Rightarrow> app \<Rightarrow> (QEvent \<times> app) option"
where
  "shareEvent cb e ev from s =
     (case from of
        None \<Rightarrow> Some (ev, s)
      | Some f \<Rightarrow>
          if f \<in> set (m_views s)
          then (let s1 = s\<lparr>filterInstalled := False\<rparr>;
                    acc = accepted ev
                in (case shareLoop cb e f acc (m_views s1) ev s1 of
                      None \<Rightarrow> None
                    | Some (ev', s2) \<Rightarrow> Some (ev', s2\<lparr>filterInstalled := True\<rparr>)))
          else Some (ev, s))"

definition qobject_cast :: "qobject \<Rightarrow> view_ptr option" where
  "qobject_cast obj = (case obj of ViewObj p \<Rightarrow> Some p | _ \<Rightarrow> None)"

text \<open>
  The body of \<open>eventFilter\<close>.  The result is the returned flag, the event and the state.  In
  the branch for \<open>Show\<close> the view found by the loop is not used.  In the branch for
  \<open>MouseButtonPress\<close> both calls of \<open>getActiveScreen\<close> read the same state.
\<close>

definition eventFilter_body ::
  "filter_cb \<Rightarrow> env \<Rightarrow> qobject \<Rightarrow> QEvent \<Rightarrow> app \<Rightarrow> (bool \<times> QEvent \<times> app) option"
where
  "eventFilter_body cb e obj event s =
     (if obj \<noteq> AppObj \<and> etype event = Show then
        (let view = find (\<lambda>v. ViewObj v = obj) (m_views s) in Some (False, event, s))
      else if etype event = MouseButtonPress then
        (case getActiveScreen e s of
           Some w \<Rightarrow> Some (False, event, emit (RequestActivate w) s)
         | None \<Rightarrow> Some (False, event, s))
      else if etype event = KeyPress then
        (case shareEvent cb e event (qobject_cast obj) s of
           None \<Rightarrow> None
         | Some (ev', s') \<Rightarrow> Some (False, ev', s'))
      else if etype event = KeyRelease then
        (if key event \<noteq> Key_Escape then
           (case shareEvent cb e event (qobject_cast obj) s of
              None \<Rightarrow> None
            | Some (ev', s') \<Rightarrow> Some (False, ev', s'))
         else Some (True, event, s))
      else Some (False, event, s))"

primrec eventFilter ::
  "nat \<Rightarrow> env \<Rightarrow> qobject \<Rightarrow> QEvent \<Rightarrow> app \<Rightarrow> (bool \<times> QEvent \<times> app) option"
where
  "eventFilter 0 e obj event s = None"
| "eventFilter (Suc depth) e obj event s = eventFilter_body (eventFilter depth e) e obj event s"

section \<open>Application::screenGeometryChanged\<close>

text \<open>\<open>QList::indexOf\<close>: the first index holding the value, or \<open>-1\<close>.\<close>

fun indexOf_from :: "screen_ptr list \<Rightarrow> screen_ptr \<Rightarrow> int \<Rightarrow> int" where
  "indexOf_from [] x i = - 1"
| "indexOf_from (y # ys) x i = (if y = x then i else indexOf_from ys x (i + 1))"

definition indexOf :: "screen_ptr list \<Rightarrow> screen_ptr \<Rightarrow> int" where
  "indexOf xs x = indexOf_from xs x 0"

definition setGeometry :: "view_ptr \<Rightarrow> QRect \<Rightarrow> app \<Rightarrow> app" where
  "setGeometry view geo s = update_view view (\<lambda>v. v\<lparr>geometry := geo\<rparr>) s"

definition screenGeometryChanged :: "env \<Rightarrow> screen_ptr \<Rightarrow> QRect \<Rightarrow> app \<Rightarrow> app" where
  "screenGeometryChanged e scr geo s =
     (let screenIndex = indexOf (screens e) scr
      in if screenIndex < 0
         then emit (Warning ''Screen not found, not updating geometry'') s
         else if screenIndex \<ge> int (length (m_views s))
         then emit (Warning ''Screen index out of range, not updating geometry'') s
         else setGeometry (m_views s ! nat screenIndex) geo s)"

section \<open>The operations of the program as a step relation\<close>

text \<open>
  One step is one callback run by the event loop: a screen signal, the authenticator's
  success signal, a callback of a running animation, the queued \<open>getFocus\<close>, a frame swap of
  a view, an event offered to the filter while it is installed, or the destructor.
\<close>

inductive step :: "env \<Rightarrow> app \<Rightarrow> app \<Rightarrow> bool" for e :: env where
  step_initialViewSetup: "step e s (initialViewSetup e s)"
| step_desktopResized: "step e s (desktopResized e s)"
| step_onScreenAdded: "step e s (onScreenAdded e scr s)"
| step_screenGeometryChanged: "step e s (screenGeometryChanged e scr geo s)"
| step_onSucceeded: "step e s (onSucceeded e s)"
| step_animationValueChanged: "a \<in> set (animations s) \<Longrightarrow> step e s (animationValueChanged a v s)"
| step_animationFinished: "a \<in> set (animations s) \<Longrightarrow> step e s (animationFinished a s)"
| step_getFocus: "step e s (getFocus e s)"
| step_markViewsAsVisible: "step e s (markViewsAsVisible view s)"
| step_eventFilter:
    "filterInstalled s \<Longrightarrow> eventFilter depth e obj event s = Some (r, event', s') \<Longrightarrow> step e s s'"
| step_destructor: "step e s (destructor s)"

text \<open>Any number of steps, each in the environment of its moment.\<close>

inductive steps :: "app \<Rightarrow> app \<Rightarrow> bool" where
  steps_none: "steps s s"
| steps_more: "steps s s' \<Longrightarrow> step e s' s'' \<Longrightarrow> steps s s''"

section \<open>Concrete configurations\<close>

text \<open>
  Two screens side by side with the cursor on the second one, and a controller that still holds
  three views from a time when a third screen was connected.
\<close>

definition ex_env :: env where
  "ex_env =
     \<lparr>screens = [10, 11],
      screenGeometry =
        (\<lambda>p. if p = 10 then \<lparr>rect_x = 0, rect_y = 0, rect_w = 1920, rect_h = 1080\<rparr>
             else \<lparr>rect_x = 1920, rect_y = 0, rect_w = 1280, rect_h = 1024\<rparr>),
      primaryScreen = Some 10,
      cursor = \<lparr>pt_x = 2000, pt_y = 500\<rparr>,
      viewEvent = (\<lambda>p ev. True)\<rparr>"

definition ex_view :: "screen_ptr \<Rightarrow> QRect \<Rightarrow> QQuickView" where
  "ex_view scr geo =
     (new_QQuickView ex_env)\<lparr>created := True, geometry := geo, screen := Some scr\<rparr>"

definition ex_app :: app where
  "ex_app =
     \<lparr>m_views = [0, 1, 2], m_testing = False,
      views =
        (\<lambda>p. if p = 0 then ex_view 10 \<lparr>rect_x = 0, rect_y = 0, rect_w = 1920, rect_h = 1080\<rparr>
             else if p = 1 then ex_view 11 \<lparr>rect_x = 1920, rect_y = 0, rect_w = 1280, rect_h = 1024\<rparr>
             else ex_view 12 \<lparr>rect_x = 3200, rect_y = 0, rect_w = 800, rect_h = 600\<rparr>),
      next_view = 3, filterInstalled = True, geometryConnections = [10, 11, 12],
      animations = [], trace = []\<rparr>"

definition ex_key :: QEvent where
  "ex_key = \<lparr>etype = KeyPress, key = 65, accepted = False\<rparr>"

definition ex_click :: QEvent where
  "ex_click = \<lparr>etype = MouseButtonPress, key = 0, accepted = False\<rparr>"

definition ex_escape_release :: QEvent where
  "ex_escape_release = \<lparr>etype = KeyRelease, key = Key_Escape, accepted = False\<rparr>"

definition ex_geo :: QRect where
  "ex_geo = \<lparr>rect_x = 1920, rect_y = 0, rect_w = 2560, rect_h = 1440\<rparr>"

section \<open>Properties of desktopResized\<close>

lemma removeUseless_m_views:
  "m_views (removeUseless n s) = take n (m_views s)"
proof (induction n s rule: removeUseless.induct)
  case (1 n s)
  show ?case
  proof (cases "length (m_views s) > n")
    case True
    then have "take n (butlast (m_views s)) = take n (m_views s)"
      by (simp add: take_butlast)
    with True 1 show ?thesis
      by (simp add: emit_def removeUseless.simps [of n s])
  next
    case False
    then show ?thesis by (simp add: removeUseless.simps [of n s])
  qed
qed

lemma createView_m_views:
  "m_views (createView e i s) = m_views s @ [next_view s]"
  by (simp add: createView_def Let_def)

lemma createView_next_view:
  "next_view (createView e i s) = Suc (next_view s)"
  by (simp add: createView_def Let_def)

lemma extendViews_m_views:
  "m_views (extendViews e i n s) = m_views s @ [next_view s ..< next_view s + (n - i)]"
proof (induction e i n s rule: extendViews.induct)
  case (1 e i n s)
  show ?case
  proof (cases "i < n")
    case True
    then have "n - i = Suc (n - Suc i)" by simp
    with True 1 show ?thesis
      by (simp add: createView_m_views createView_next_view upt_rec
            extendViews.simps [of e i n s])
  next
    case False
    then show ?thesis by (simp add: extendViews.simps [of e i n s])
  qed
qed

lemma showView_m_views:
  "m_views (showView e i s) = m_views s"
  by (simp add: showView_def Let_def emit_def update_view_def)

lemma updateViews_m_views:
  "m_views (updateViews e i n s) = m_views s"
proof (induction e i n s rule: updateViews.induct)
  case (1 e i n s)
  then show ?case
    by (cases "i < n") (simp_all add: showView_m_views updateViews.simps [of e i n s])
qed

lemma removeUseless_next_view:
  "next_view (removeUseless n s) = next_view s"
proof (induction n s rule: removeUseless.induct)
  case (1 n s)
  then show ?case
    by (cases "length (m_views s) > n") (simp_all add: emit_def removeUseless.simps [of n s])
qed

lemma removeUseless_views:
  "views (removeUseless n s) = views s"
proof (induction n s rule: removeUseless.induct)
  case (1 n s)
  then show ?case
    by (cases "length (m_views s) > n") (simp_all add: emit_def removeUseless.simps [of n s])
qed

lemma desktopResized_m_views:
  "m_views (desktopResized e s) =
     take (length (screens e)) (m_views s) @
     [next_view s ..< next_view s + (length (screens e) - length (m_views s))]"
  by (simp add: desktopResized_def Let_def updateViews_m_views extendViews_m_views
        removeUseless_m_views removeUseless_next_view min_def)

lemma showView_screen:
  "screen (views (showView e i s) p) =
     (if p = m_views s ! i then Some (screens e ! i) else screen (views s p))"
  by (simp add: showView_def Let_def emit_def update_view_def)

lemma updateViews_screen:
  "distinct (m_views s) \<Longrightarrow> n \<le> length (m_views s) \<Longrightarrow> j < n \<Longrightarrow>
   screen (views (updateViews e i n s) (m_views s ! j)) =
     (if i \<le> j then Some (screens e ! j) else screen (views s (m_views s ! j)))"
proof (induction e i n s rule: updateViews.induct)
  case (1 e i n s)
  show ?case
  proof (cases "i < n")
    case True
    have eq: "m_views s ! j = m_views s ! i \<longleftrightarrow> j = i"
      using "1.prems" True by (simp add: nth_eq_iff_index_eq)
    have "screen (views (updateViews e (Suc i) n (showView e i s)) (m_views s ! j)) =
        (if Suc i \<le> j then Some (screens e ! j)
         else screen (views (showView e i s) (m_views s ! j)))"
      using "1.IH" [OF True] "1.prems" by (simp add: showView_m_views)
    then show ?thesis
      using True eq by (auto simp: showView_screen updateViews.simps [of e i n s])
  next
    case False
    with "1.prems" show ?thesis by (simp add: updateViews.simps [of e i n s])
  qed
qed

lemma wf_desktopResized_m_views:
  assumes "wf s"
  shows "distinct (m_views (desktopResized e s))"
proof -
  have "\<forall>p \<in> set (m_views s). p < next_view s"
    using assms by (simp add: wf_def list_all_iff)
  then have "\<forall>p \<in> set (take (length (screens e)) (m_views s)). p < next_view s"
    by (meson in_set_takeD)
  moreover have "distinct (take (length (screens e)) (m_views s))"
    using assms by (simp add: wf_def)
  ultimately show ?thesis
    by (auto simp: desktopResized_m_views)
qed

text \<open>
  C2: in a well-formed state, after \<open>desktopResized\<close> the view at every index below the
  screen count has been assigned the screen at the same index of the screen list; the views at
  the indices that existed before and still exist are the same pointers as before, and when the
  list was at least as long as the screen list the result is its prefix of that length, so
  only views at the tail are removed.
\<close>

theorem desktopResized_positional:
  assumes "wf s"
  shows "(\<forall>i < length (screens e).
            screen (views (desktopResized e s) (m_views (desktopResized e s) ! i)) =
              Some (screens e ! i)) \<and>
         (\<forall>i < min (length (m_views s)) (length (screens e)).
            m_views (desktopResized e s) ! i = m_views s ! i) \<and>
         (length (screens e) \<le> length (m_views s) \<longrightarrow>
            m_views (desktopResized e s) = take (length (screens e)) (m_views s))"
proof -
  let ?n = "length (screens e)"
  let ?s2 = "extendViews e (length (m_views (removeUseless ?n s))) ?n (removeUseless ?n s)"
  have res: "desktopResized e s = updateViews e 0 ?n ?s2"
    by (simp add: desktopResized_def Let_def)
  have mv: "m_views ?s2 = m_views (desktopResized e s)"
    by (simp add: res updateViews_m_views)
  have dist: "distinct (m_views ?s2)"
    using wf_desktopResized_m_views [OF assms, of e] by (simp add: mv)
  have len: "?n \<le> length (m_views ?s2)"
    by (simp add: mv desktopResized_m_views)
  have scr: "screen (views (desktopResized e s) (m_views (desktopResized e s) ! i)) =
      Some (screens e ! i)" if "i < ?n" for i
    using updateViews_screen [OF dist len that, of e 0] by (simp add: res [symmetric] mv)
  have keep: "m_views (desktopResized e s) ! i = m_views s ! i"
    if "i < min (length (m_views s)) ?n" for i
    using that by (simp add: desktopResized_m_views nth_append)
  have shrink: "m_views (desktopResized e s) = take ?n (m_views s)"
    if "?n \<le> length (m_views s)"
    using that by (simp add: desktopResized_m_views)
  from scr keep shrink show ?thesis by blast
qed

theorem desktopResized_positional_witness:
  "wf ex_app \<and>
   m_views (desktopResized ex_env ex_app) = [0, 1] \<and>
   screen (views (desktopResized ex_env ex_app) 1) = Some 11"
proof -
  have w: "wf ex_app"
    by (simp add: wf_def ex_app_def)
  have m: "m_views (desktopResized ex_env ex_app) = [0, 1]"
    using desktopResized_positional [OF w, of ex_env]
    by (simp add: ex_env_def ex_app_def)
  have "screen (views (desktopResized ex_env ex_app) (m_views (desktopResized ex_env ex_app) ! 1)) =
      Some (screens ex_env ! 1)"
    using desktopResized_positional [OF w, of ex_env] by (simp add: ex_env_def)
  then show ?thesis using w m by (simp add: ex_env_def)
qed

section \<open>What desktopResized deletes and creates\<close>

lemma removeUseless_trace:
  "trace (removeUseless n s) = trace s @ map DeleteLater (rev (drop n (m_views s)))"
proof (induction n s rule: removeUseless.induct)
  case (1 n s)
  show ?case
  proof (cases "length (m_views s) > n")
    case True
    then have ne: "drop n (m_views s) \<noteq> []" by simp
    then have "butlast (drop n (m_views s)) @ [last (drop n (m_views s))] = drop n (m_views s)"
      by (rule append_butlast_last_id)
    then have "drop n (butlast (m_views s)) @ [last (m_views s)] = drop n (m_views s)"
      using True by (simp add: drop_butlast)
    then have "rev (drop n (m_views s)) = rev (drop n (butlast (m_views s)) @ [last (m_views s)])"
      by simp
    then have "rev (drop n (m_views s)) = last (m_views s) # rev (drop n (butlast (m_views s)))"
      by simp
    with True 1 show ?thesis
      by (simp add: emit_def removeUseless.simps [of n s])
  next
    case False
    then show ?thesis by (simp add: removeUseless.simps [of n s])
  qed
qed

lemma removeUseless_m_testing:
  "m_testing (removeUseless n s) = m_testing s"
proof (induction n s rule: removeUseless.induct)
  case (1 n s)
  then show ?case
    by (cases "length (m_views s) > n") (simp_all add: emit_def removeUseless.simps [of n s])
qed

lemma createView_new_view:
  "views (createView e i s) (next_view s) =
     (new_QQuickView e)
       \<lparr>created := True, authenticatorProperty := True, source := ''qrc:/qml/LockScreen.qml'',
        resizeMode := SizeRootObjectToView, viewColor := Black,
        geometry := screenGeometry e (screens e ! i), frameless := \<not> m_testing s,
        frameSwappedConnected := True\<rparr>"
  by (simp add: createView_def Let_def new_QQuickView_def)

lemma createView_other:
  "(p \<noteq> next_view s \<longrightarrow> views (createView e i s) p = views s p) \<and>
   trace (createView e i s) = trace s \<and> m_testing (createView e i s) = m_testing s"
  by (simp add: createView_def Let_def)

lemma extendViews_old:
  "trace (extendViews e i n s) = trace s \<and> m_testing (extendViews e i n s) = m_testing s \<and>
   (\<forall>p < next_view s. views (extendViews e i n s) p = views s p)"
proof (induction e i n s rule: extendViews.induct)
  case (1 e i n s)
  show ?case
  proof (cases "i < n")
    case True
    with 1 show ?thesis
      by (simp add: extendViews.simps [of e i n s] createView_other createView_next_view)
  next
    case False
    then show ?thesis by (simp add: extendViews.simps [of e i n s])
  qed
qed

lemma extendViews_new:
  "k < n - i \<Longrightarrow>
   views (extendViews e i n s) (next_view s + k) =
     (new_QQuickView e)
       \<lparr>created := True, authenticatorProperty := True, source := ''qrc:/qml/LockScreen.qml'',
        resizeMode := SizeRootObjectToView, viewColor := Black,
        geometry := screenGeometry e (screens e ! (i + k)), frameless := \<not> m_testing s,
        frameSwappedConnected := True\<rparr>"
proof (induction e i n s arbitrary: k rule: extendViews.induct)
  case (1 e i n s)
  from "1.prems" have lt: "i < n" by simp
  have unfold: "extendViews e i n s = extendViews e (Suc i) n (createView e i s)"
    using lt by (simp add: extendViews.simps [of e i n s])
  show ?case
  proof (cases k)
    case 0
    have "views (extendViews e (Suc i) n (createView e i s)) (next_view s) =
        views (createView e i s) (next_view s)"
      using extendViews_old [of e "Suc i" n "createView e i s"]
      by (simp add: createView_next_view)
    with 0 show ?thesis
      by (simp add: unfold createView_new_view)
  next
    case (Suc k')
    with "1.prems" have "k' < n - Suc i" by simp
    from "1.IH" [OF lt this] Suc show ?thesis
      by (simp add: unfold createView_next_view createView_other)
  qed
qed

lemma showView_trace:
  "trace (showView e i s) = trace s @ [Raise (m_views s ! i)]"
  by (simp add: showView_def Let_def emit_def update_view_def)

lemma updateViews_trace:
  "trace (updateViews e i n s) = trace s @ map (\<lambda>j. Raise (m_views s ! j)) [i..<n]"
proof (induction e i n s rule: updateViews.induct)
  case (1 e i n s)
  show ?case
  proof (cases "i < n")
    case True
    with 1 show ?thesis
      by (simp add: updateViews.simps [of e i n s] showView_trace showView_m_views upt_rec [of i n])
  next
    case False
    then show ?thesis by (simp add: updateViews.simps [of e i n s])
  qed
qed

text \<open>The third loop assigns the screen and the visibility of a view and nothing else.\<close>

lemma showView_keeps:
  assumes "\<And>v x. P (v\<lparr>screen := x\<rparr>) = P v" "\<And>v x. P (v\<lparr>visible := x\<rparr>) = P v"
  shows "P (views (showView e i s) p) = P (views s p)"
  by (simp add: showView_def Let_def emit_def update_view_def assms)

lemma updateViews_keeps:
  assumes "\<And>v x. P (v\<lparr>screen := x\<rparr>) = P v" "\<And>v x. P (v\<lparr>visible := x\<rparr>) = P v"
  shows "P (views (updateViews e i n s) p) = P (views s p)"
proof (induction e i n s rule: updateViews.induct)
  case (1 e i n s)
  show ?case
  proof (cases "i < n")
    case True
    with 1 have "P (views (updateViews e i n s) p) = P (views (showView e i s) p)"
      by (simp add: updateViews.simps [of e i n s])
    then show ?thesis
      by (simp add: showView_keeps [of P, OF assms])
  next
    case False
    then show ?thesis by (simp add: updateViews.simps [of e i n s])
  qed
qed

lemma map_nth_upt:
  "length xs = n \<Longrightarrow> map (\<lambda>j. f (xs ! j)) [0..<n] = map f xs"
  by (auto simp: list_eq_iff_nth_eq)

lemma desktopResized_trace:
  "trace (desktopResized e s) =
     trace s @ map DeleteLater (rev (drop (length (screens e)) (m_views s))) @
     map Raise (m_views (desktopResized e s))"
proof -
  let ?n = "length (screens e)"
  let ?s1 = "removeUseless ?n s"
  let ?s2 = "extendViews e (length (m_views ?s1)) ?n ?s1"
  have r: "desktopResized e s = updateViews e 0 ?n ?s2"
    by (simp add: desktopResized_def Let_def)
  have mv: "m_views (desktopResized e s) = m_views ?s2"
    by (simp only: r updateViews_m_views)
  have "length (m_views (desktopResized e s)) = ?n"
    by (simp add: desktopResized_m_views)
  then have len: "length (m_views ?s2) = ?n"
    by (simp only: mv)
  have raised: "map (\<lambda>j. Raise (m_views ?s2 ! j)) [0..<?n] = map Raise (m_views ?s2)"
    using len by (rule map_nth_upt)
  have t1: "trace ?s1 = trace s @ map DeleteLater (rev (drop ?n (m_views s)))"
    by (rule removeUseless_trace)
  have t2: "trace ?s2 = trace ?s1"
    using extendViews_old [of e "length (m_views ?s1)" ?n ?s1] by blast
  have "trace (desktopResized e s) = trace (updateViews e 0 ?n ?s2)"
    by (simp only: r)
  also have "\<dots> = trace ?s2 @ map (\<lambda>j. Raise (m_views ?s2 ! j)) [0..<?n]"
    by (rule updateViews_trace)
  also have "\<dots> = trace ?s2 @ map Raise (m_views ?s2)"
    by (simp only: raised)
  also have "\<dots> = trace s @ map DeleteLater (rev (drop ?n (m_views s))) @
      map Raise (m_views (desktopResized e s))"
    by (simp only: t2 t1 mv append_assoc)
  finally show ?thesis .
qed

lemma desktopResized_new_view:
  assumes "\<And>v x. P (v\<lparr>screen := x\<rparr>) = P v" "\<And>v x. P (v\<lparr>visible := x\<rparr>) = P v"
    and "length (m_views s) \<le> i" "i < length (screens e)"
  shows "m_views (desktopResized e s) ! i = next_view s + (i - length (m_views s)) \<and>
         P (views (desktopResized e s) (m_views (desktopResized e s) ! i)) =
         P ((new_QQuickView e)
              \<lparr>created := True, authenticatorProperty := True,
               source := ''qrc:/qml/LockScreen.qml'', resizeMode := SizeRootObjectToView,
               viewColor := Black, geometry := screenGeometry e (screens e ! i),
               frameless := \<not> m_testing s, frameSwappedConnected := True\<rparr>)"
proof -
  let ?n = "length (screens e)"
  let ?len = "length (m_views s)"
  let ?s1 = "removeUseless ?n s"
  let ?s2 = "extendViews e (length (m_views ?s1)) ?n ?s1"
  have le: "?len \<le> ?n" using assms(3,4) by simp
  have l1: "length (m_views ?s1) = ?len"
    using le by (simp add: removeUseless_m_views)
  have p: "m_views (desktopResized e s) ! i = next_view s + (i - ?len)"
    using assms(3,4) le by (simp add: desktopResized_m_views nth_append)
  have k: "i - ?len < ?n - length (m_views ?s1)"
    using assms(3,4) by (simp add: l1)
  have "views ?s2 (next_view ?s1 + (i - ?len)) =
      (new_QQuickView e)
        \<lparr>created := True, authenticatorProperty := True,
         source := ''qrc:/qml/LockScreen.qml'', resizeMode := SizeRootObjectToView,
         viewColor := Black,
         geometry := screenGeometry e (screens e ! (length (m_views ?s1) + (i - ?len))),
         frameless := \<not> m_testing ?s1, frameSwappedConnected := True\<rparr>"
    by (rule extendViews_new [OF k])
  then have v: "views ?s2 (next_view s + (i - ?len)) =
      (new_QQuickView e)
        \<lparr>created := True, authenticatorProperty := True,
         source := ''qrc:/qml/LockScreen.qml'', resizeMode := SizeRootObjectToView,
         viewColor := Black, geometry := screenGeometry e (screens e ! i),
         frameless := \<not> m_testing s, frameSwappedConnected := True\<rparr>"
    using assms(3) by (simp add: l1 removeUseless_next_view removeUseless_m_testing)
  have "P (views (desktopResized e s) (next_view s + (i - ?len))) =
      P (views ?s2 (next_view s + (i - ?len)))"
    unfolding desktopResized_def Let_def
    by (rule updateViews_keeps [of P, OF assms(1,2)])
  with p v show ?thesis by simp
qed

text \<open>
  C1: after a run of \<open>desktopResized\<close> the list \<open>m_views\<close> holds exactly as many views as
  there are connected screens, whatever the list held before.  The surplus views, those at the
  indices from the screen count on, are the ones handed to \<open>deleteLater\<close>, last one first,
  and the list keeps the views before them.  The views at the indices from the old length on
  are new: their addresses are the next ones of the allocator, and each is a created window
  with the authenticator in its context, the lock screen as its source, a black background
  and the geometry of the screen at its index, frameless outside testing mode.  Every view of
  the new list is raised once, in list order.
\<close>

theorem desktopResized_one_view_per_screen:
  "length (m_views (desktopResized e s)) = length (screens e) \<and>
   m_views (desktopResized e s) =
     take (length (screens e)) (m_views s) @
     [next_view s ..< next_view s + (length (screens e) - length (m_views s))] \<and>
   trace (desktopResized e s) =
     trace s @ map DeleteLater (rev (drop (length (screens e)) (m_views s))) @
     map Raise (m_views (desktopResized e s)) \<and>
   (\<forall>i. length (m_views s) \<le> i \<and> i < length (screens e) \<longrightarrow>
      created (views (desktopResized e s) (m_views (desktopResized e s) ! i)) \<and>
      authenticatorProperty (views (desktopResized e s) (m_views (desktopResized e s) ! i)) \<and>
      source (views (desktopResized e s) (m_views (desktopResized e s) ! i)) =
        ''qrc:/qml/LockScreen.qml'' \<and>
      resizeMode (views (desktopResized e s) (m_views (desktopResized e s) ! i)) =
        SizeRootObjectToView \<and>
      viewColor (views (desktopResized e s) (m_views (desktopResized e s) ! i)) = Black \<and>
      geometry (views (desktopResized e s) (m_views (desktopResized e s) ! i)) =
        screenGeometry e (screens e ! i) \<and>
      frameless (views (desktopResized e s) (m_views (desktopResized e s) ! i)) =
        (\<not> m_testing s) \<and>
      frameSwappedConnected (views (desktopResized e s) (m_views (desktopResized e s) ! i)))"
proof (intro conjI allI impI)
  show "length (m_views (desktopResized e s)) = length (screens e)"
    by (simp add: desktopResized_m_views)
  show "m_views (desktopResized e s) =
     take (length (screens e)) (m_views s) @
     [next_view s ..< next_view s + (length (screens e) - length (m_views s))]"
    by (rule desktopResized_m_views)
  show "trace (desktopResized e s) =
     trace s @ map DeleteLater (rev (drop (length (screens e)) (m_views s))) @
     map Raise (m_views (desktopResized e s))"
    by (rule desktopResized_trace)
next
  fix i
  assume a: "length (m_views s) \<le> i \<and> i < length (screens e)"
  let ?v = "views (desktopResized e s) (m_views (desktopResized e s) ! i)"
  let ?P = "\<lambda>v. created v \<and> authenticatorProperty v \<and> source v = ''qrc:/qml/LockScreen.qml'' \<and>
      resizeMode v = SizeRootObjectToView \<and> viewColor v = Black \<and>
      geometry v = screenGeometry e (screens e ! i) \<and> frameless v = (\<not> m_testing s) \<and>
      frameSwappedConnected v"
  have "?P ?v =
      ?P ((new_QQuickView e)
            \<lparr>created := True, authenticatorProperty := True,
             source := ''qrc:/qml/LockScreen.qml'', resizeMode := SizeRootObjectToView,
             viewColor := Black, geometry := screenGeometry e (screens e ! i),
             frameless := \<not> m_testing s, frameSwappedConnected := True\<rparr>)"
    using a by (intro desktopResized_new_view [of ?P s i e, THEN conjunct2]) simp_all
  then have "?P ?v" by simp
  then show "created ?v" "authenticatorProperty ?v" "source ?v = ''qrc:/qml/LockScreen.qml''"
    "resizeMode ?v = SizeRootObjectToView" "viewColor ?v = Black"
    "geometry ?v = screenGeometry e (screens e ! i)" "frameless ?v = (\<not> m_testing s)"
    "frameSwappedConnected ?v"
    by simp_all
qed

theorem desktopResized_one_view_per_screen_witness:
  "m_views (desktopResized ex_env ex_app) = [0, 1] \<and>
   trace (desktopResized ex_env ex_app) = [DeleteLater 2, Raise 0, Raise 1] \<and>
   m_views (desktopResized ex_env (ex_app\<lparr>m_views := [0]\<rparr>)) = [0, 3] \<and>
   trace (desktopResized ex_env (ex_app\<lparr>m_views := [0]\<rparr>)) = [Raise 0, Raise 3] \<and>
   created (views (desktopResized ex_env (ex_app\<lparr>m_views := [0]\<rparr>)) 3) \<and>
   geometry (views (desktopResized ex_env (ex_app\<lparr>m_views := [0]\<rparr>)) 3) =
     \<lparr>rect_x = 1920, rect_y = 0, rect_w = 1280, rect_h = 1024\<rparr> \<and>
   frameless (views (desktopResized ex_env (ex_app\<lparr>m_views := [0]\<rparr>)) 3)"
proof -
  let ?g = "ex_app\<lparr>m_views := [0]\<rparr>"
  have m1: "m_views (desktopResized ex_env ex_app) = [0, 1]"
    using desktopResized_one_view_per_screen [of ex_env ex_app]
    by (simp add: ex_env_def ex_app_def)
  have t1: "trace (desktopResized ex_env ex_app) = [DeleteLater 2, Raise 0, Raise 1]"
    using desktopResized_one_view_per_screen [of ex_env ex_app] m1
    by (simp add: ex_env_def ex_app_def)
  have m2: "m_views (desktopResized ex_env ?g) = [0, 3]"
    using desktopResized_one_view_per_screen [of ex_env ?g]
    by (simp add: ex_env_def ex_app_def)
  have t2: "trace (desktopResized ex_env ?g) = [Raise 0, Raise 3]"
    using desktopResized_one_view_per_screen [of ex_env ?g] m2
    by (simp add: ex_env_def ex_app_def)
  have "length (m_views ?g) \<le> 1 \<and> 1 < length (screens ex_env)"
    by (simp add: ex_env_def)
  then have "created (views (desktopResized ex_env ?g) (m_views (desktopResized ex_env ?g) ! 1)) \<and>
      geometry (views (desktopResized ex_env ?g) (m_views (desktopResized ex_env ?g) ! 1)) =
        screenGeometry ex_env (screens ex_env ! 1) \<and>
      frameless (views (desktopResized ex_env ?g) (m_views (desktopResized ex_env ?g) ! 1)) =
        (\<not> m_testing ?g)"
    using desktopResized_one_view_per_screen [of ex_env ?g] by blast
  then have "created (views (desktopResized ex_env ?g) 3) \<and>
      geometry (views (desktopResized ex_env ?g) 3) = screenGeometry ex_env (screens ex_env ! 1) \<and>
      frameless (views (desktopResized ex_env ?g) 3) = (\<not> m_testing ?g)"
    by (simp add: m2)
  then have v: "created (views (desktopResized ex_env ?g) 3) \<and>
      geometry (views (desktopResized ex_env ?g) 3) =
        \<lparr>rect_x = 1920, rect_y = 0, rect_w = 1280, rect_h = 1024\<rparr> \<and>
      frameless (views (desktopResized ex_env ?g) 3)"
    by (simp add: ex_env_def ex_app_def)
  from m1 t1 m2 t2 v show ?thesis by simp
qed

section \<open>Properties of shareEvent\<close>

text \<open>
  While the filter is not installed, \<open>sendEvent\<close> goes straight to the receiver and never
  consults the filter.
\<close>

lemma sendEvent_unfiltered:
  "\<not> filterInstalled s \<Longrightarrow>
   sendEvent cb e view ev s =
     Some (ev\<lparr>accepted := viewEvent e view ev\<rparr>, emit (SendEvent view ev False) s)"
  by (simp add: sendEvent_def Let_def emit_def)

lemma shareLoop_unfiltered:
  "\<not> filterInstalled s \<Longrightarrow> accepted ev = acc \<Longrightarrow>
   shareLoop cb e f acc vs ev s =
     Some (ev, s\<lparr>trace := trace s @ map (\<lambda>v. SendEvent v ev False) (filter (\<lambda>v. v \<noteq> f) vs)\<rparr>)"
proof (induction vs arbitrary: s)
  case Nil
  then show ?case by simp
next
  case (Cons view rest)
  show ?case
  proof (cases "view = f")
    case True
    with Cons show ?thesis by simp
  next
    case False
    have off: "\<not> filterInstalled (emit (SendEvent view ev False) s)"
      using Cons.prems by (simp add: emit_def)
    have reset: "(ev\<lparr>accepted := viewEvent e view ev\<rparr>)\<lparr>accepted := acc\<rparr> = ev"
      using Cons.prems by simp
    show ?thesis
      using False Cons.prems Cons.IH [OF off Cons.prems(2)]
      by (simp add: sendEvent_unfiltered reset emit_def)
  qed
qed

lemma shareEvent_member:
  "f \<in> set (m_views s) \<Longrightarrow>
   shareEvent cb e ev (Some f) s =
     Some (ev, s\<lparr>trace := trace s @
                      map (\<lambda>v. SendEvent v ev False) (filter (\<lambda>v. v \<noteq> f) (m_views s)),
                  filterInstalled := True\<rparr>)"
  by (simp add: shareEvent_def Let_def shareLoop_unfiltered)

lemma shareEvent_not_member:
  "from = None \<or> (\<exists>f. from = Some f \<and> f \<notin> set (m_views s)) \<Longrightarrow>
   shareEvent cb e ev from s = Some (ev, s)"
  by (auto simp: shareEvent_def)

lemma count_sends_absent:
  "v \<notin> set vs \<Longrightarrow>
   count_list (map (\<lambda>v. SendEvent v ev b) (filter (\<lambda>v. v \<noteq> f) vs)) (SendEvent v ev' b') = 0"
  by (induction vs) auto

lemma count_sends_distinct:
  "distinct vs \<Longrightarrow> v \<in> set vs \<Longrightarrow> v \<noteq> f \<Longrightarrow>
   count_list (map (\<lambda>v. SendEvent v ev b) (filter (\<lambda>v. v \<noteq> f) vs)) (SendEvent v ev b) = 1"
  by (induction vs) (auto simp: count_sends_absent)

lemma count_sends_from:
  "count_list (map (\<lambda>v. SendEvent v ev b) (filter (\<lambda>v. v \<noteq> f) vs)) (SendEvent f ev' b') = 0"
  by (induction vs) auto

text \<open>
  C3: when \<open>from\<close> is a view of \<open>m_views\<close>, \<open>shareEvent\<close> returns, and what it adds to
  the trace is one \<open>sendEvent\<close> for each entry of \<open>m_views\<close> other than \<open>from\<close>, in list
  order, each carrying the event with the accepted flag it had on entry; \<open>from\<close> itself
  receives nothing, and in a well-formed state every other view receives the event exactly
  once.  When \<open>from\<close> is null or not in \<open>m_views\<close>, nothing is sent and the state is
  unchanged.  The event comes back with its accepted flag as on entry.
\<close>

theorem shareEvent_forwards:
  "(from = Some f \<and> f \<in> set (m_views s) \<longrightarrow>
      (\<exists>s'. shareEvent cb e ev from s = Some (ev, s') \<and>
            trace s' = trace s @
              map (\<lambda>v. SendEvent v ev False) (filter (\<lambda>v. v \<noteq> f) (m_views s)) \<and>
            (\<forall>ev' b. count_list (drop (length (trace s)) (trace s')) (SendEvent f ev' b) = 0) \<and>
            (wf s \<longrightarrow> (\<forall>v \<in> set (m_views s). v \<noteq> f \<longrightarrow>
               count_list (drop (length (trace s)) (trace s')) (SendEvent v ev False) = 1)))) \<and>
   (from = None \<or> (\<exists>g. from = Some g \<and> g \<notin> set (m_views s)) \<longrightarrow>
      shareEvent cb e ev from s = Some (ev, s))"
proof (intro conjI impI)
  assume a: "from = Some f \<and> f \<in> set (m_views s)"
  let ?sent = "map (\<lambda>v. SendEvent v ev False) (filter (\<lambda>v. v \<noteq> f) (m_views s))"
  let ?s' = "s\<lparr>trace := trace s @ ?sent, filterInstalled := True\<rparr>"
  have r: "shareEvent cb e ev from s = Some (ev, ?s')"
    using a by (simp add: shareEvent_member)
  have t: "trace ?s' = trace s @ ?sent" by simp
  have d: "drop (length (trace s)) (trace ?s') = ?sent" by simp
  have once: "count_list (drop (length (trace s)) (trace ?s')) (SendEvent v ev False) = 1"
    if "wf s" "v \<in> set (m_views s)" "v \<noteq> f" for v
    unfolding d using that by (intro count_sends_distinct) (simp_all add: wf_def)
  have none: "count_list (drop (length (trace s)) (trace ?s')) (SendEvent f ev' b) = 0" for ev' b
    unfolding d by (rule count_sends_from)
  show "\<exists>s'. shareEvent cb e ev from s = Some (ev, s') \<and>
            trace s' = trace s @ ?sent \<and>
            (\<forall>ev' b. count_list (drop (length (trace s)) (trace s')) (SendEvent f ev' b) = 0) \<and>
            (wf s \<longrightarrow> (\<forall>v \<in> set (m_views s). v \<noteq> f \<longrightarrow>
               count_list (drop (length (trace s)) (trace s')) (SendEvent v ev False) = 1))"
    using r t once none by blast
next
  assume "from = None \<or> (\<exists>g. from = Some g \<and> g \<notin> set (m_views s))"
  then show "shareEvent cb e ev from s = Some (ev, s)"
    by (rule shareEvent_not_member)
qed

theorem shareEvent_forwards_witness:
  "wf ex_app \<and>
   map_option (\<lambda>(ev, s'). (ev, trace s'))
       (shareEvent (\<lambda>obj ev s. None) ex_env ex_key (Some 1) ex_app) =
     Some (ex_key, [SendEvent 0 ex_key False, SendEvent 2 ex_key False]) \<and>
   shareEvent (\<lambda>obj ev s. None) ex_env ex_key (Some 7) ex_app = Some (ex_key, ex_app) \<and>
   shareEvent (\<lambda>obj ev s. None) ex_env ex_key None ex_app = Some (ex_key, ex_app)"
proof -
  have w: "wf ex_app"
    by (simp add: wf_def ex_app_def)
  have a: "map_option (\<lambda>(ev, s'). (ev, trace s'))
       (shareEvent (\<lambda>obj ev s. None) ex_env ex_key (Some 1) ex_app) =
     Some (ex_key, [SendEvent 0 ex_key False, SendEvent 2 ex_key False])"
    using shareEvent_forwards [of "Some 1" 1 ex_app "\<lambda>obj ev s. None" ex_env ex_key]
    by (auto simp: ex_app_def)
  have b: "shareEvent (\<lambda>obj ev s. None) ex_env ex_key (Some 7) ex_app = Some (ex_key, ex_app)"
    using shareEvent_forwards [of "Some 7" 7 ex_app "\<lambda>obj ev s. None" ex_env ex_key]
    by (simp add: ex_app_def)
  have c: "shareEvent (\<lambda>obj ev s. None) ex_env ex_key None ex_app = Some (ex_key, ex_app)"
    using shareEvent_forwards [of None 0 ex_app "\<lambda>obj ev s. None" ex_env ex_key]
    by simp
  from w a b c show ?thesis by simp
qed

lemma shareEvent_result:
  "shareEvent cb e ev from s =
     Some (ev, (case from of
                  None \<Rightarrow> s
                | Some f \<Rightarrow>
                    if f \<in> set (m_views s)
                    then s\<lparr>trace := trace s @
                             map (\<lambda>v. SendEvent v ev False) (filter (\<lambda>v. v \<noteq> f) (m_views s)),
                           filterInstalled := True\<rparr>
                    else s))"
  by (cases "from") (simp_all add: shareEvent_member shareEvent_not_member)

lemma eventFilter_body_cb:
  "eventFilter_body cb e obj ev s = eventFilter_body cb' e obj ev s"
  by (simp add: eventFilter_body_def shareEvent_result)

text \<open>
  C4: \<open>shareEvent\<close> never consults the event filter: it returns the same result when the
  filter it would run is replaced by one that never returns.  Everything it adds to the trace
  is a \<open>sendEvent\<close> made while the filter was not installed.  The filter is installed on
  exit whenever the forwarding branch ran, and whenever it was installed on entry.  As a
  consequence \<open>eventFilter\<close>, run at any positive nesting bound, never re-enters itself.
\<close>

theorem shareEvent_no_recursion:
  "(\<exists>s'. shareEvent cb e ev from s = Some (ev, s') \<and>
         shareEvent (\<lambda>obj ev s. None) e ev from s = Some (ev, s') \<and>
         (\<forall>x \<in> set (drop (length (trace s)) (trace s')). \<exists>v. x = SendEvent v ev False) \<and>
         ((\<exists>f. from = Some f \<and> f \<in> set (m_views s)) \<longrightarrow> filterInstalled s') \<and>
         (filterInstalled s \<longrightarrow> filterInstalled s')) \<and>
   eventFilter (Suc depth) e obj ev s = eventFilter_body (\<lambda>obj ev s. None) e obj ev s"
proof
  show "\<exists>s'. shareEvent cb e ev from s = Some (ev, s') \<and>
         shareEvent (\<lambda>obj ev s. None) e ev from s = Some (ev, s') \<and>
         (\<forall>x \<in> set (drop (length (trace s)) (trace s')). \<exists>v. x = SendEvent v ev False) \<and>
         ((\<exists>f. from = Some f \<and> f \<in> set (m_views s)) \<longrightarrow> filterInstalled s') \<and>
         (filterInstalled s \<longrightarrow> filterInstalled s')"
  proof (cases "\<exists>f. from = Some f \<and> f \<in> set (m_views s)")
    case True
    then obtain f where f: "from = Some f" "f \<in> set (m_views s)" by blast
    then show ?thesis
      by (auto simp: shareEvent_member)
  next
    case False
    then have "from = None \<or> (\<exists>f. from = Some f \<and> f \<notin> set (m_views s))"
      by (cases "from") auto
    then have "shareEvent cb e ev from s = Some (ev, s)"
      and "shareEvent (\<lambda>obj ev s. None) e ev from s = Some (ev, s)"
      by (simp_all add: shareEvent_not_member)
    with False show ?thesis by auto
  qed
next
  show "eventFilter (Suc depth) e obj ev s = eventFilter_body (\<lambda>obj ev s. None) e obj ev s"
    by (simp add: eventFilter_body_cb [of "eventFilter depth e"])
qed

theorem shareEvent_no_recursion_witness:
  "filterInstalled ex_app \<and>
   map_option (\<lambda>(ev, s'). (filterInstalled s', trace s'))
       (shareEvent (eventFilter 1 ex_env) ex_env ex_key (Some 1) ex_app) =
     Some (True, [SendEvent 0 ex_key False, SendEvent 2 ex_key False]) \<and>
   eventFilter 2 ex_env (ViewObj 1) ex_key ex_app = eventFilter 1 ex_env (ViewObj 1) ex_key ex_app"
proof -
  have i: "filterInstalled ex_app"
    by (simp add: ex_app_def)
  have m: "\<exists>f. Some (1::nat) = Some f \<and> f \<in> set (m_views ex_app)"
    by (simp add: ex_app_def)
  have t: "shareEvent (\<lambda>obj ev s. None) ex_env ex_key (Some 1) ex_app =
      Some (ex_key, ex_app\<lparr>trace := [SendEvent 0 ex_key False, SendEvent 2 ex_key False]\<rparr>)"
    by (simp add: shareEvent_def sendEvent_def emit_def ex_app_def Let_def)
  have a: "map_option (\<lambda>(ev, s'). (filterInstalled s', trace s'))
       (shareEvent (eventFilter 1 ex_env) ex_env ex_key (Some 1) ex_app) =
     Some (True, [SendEvent 0 ex_key False, SendEvent 2 ex_key False])"
    using shareEvent_no_recursion [of "eventFilter 1 ex_env" ex_env ex_key "Some 1" ex_app] i t
    by auto
  have b: "eventFilter 2 ex_env (ViewObj 1) ex_key ex_app =
      eventFilter 1 ex_env (ViewObj 1) ex_key ex_app"
    using shareEvent_no_recursion [of _ ex_env ex_key _ ex_app 1 "ViewObj 1"]
      shareEvent_no_recursion [of _ ex_env ex_key _ ex_app 0 "ViewObj 1"]
    by (simp add: numeral_2_eq_2)
  from i a b show ?thesis by simp
qed

section \<open>Properties of screenGeometryChanged\<close>

lemma indexOf_from_absent:
  "x \<notin> set xs \<Longrightarrow> indexOf_from xs x i = - 1"
  by (induction xs arbitrary: i) auto

lemma indexOf_from_present:
  "x \<in> set xs \<Longrightarrow>
   i \<le> indexOf_from xs x i \<and> indexOf_from xs x i < i + int (length xs) \<and>
   xs ! nat (indexOf_from xs x i - i) = x"
proof (induction xs arbitrary: i)
  case Nil
  then show ?case by simp
next
  case (Cons y ys)
  show ?case
  proof (cases "y = x")
    case True
    then show ?thesis by simp
  next
    case False
    with Cons.prems have "x \<in> set ys" by simp
    from Cons.IH [OF this, of "i + 1"]
    have ih: "i + 1 \<le> indexOf_from ys x (i + 1)"
      "indexOf_from ys x (i + 1) < i + 1 + int (length ys)"
      "ys ! nat (indexOf_from ys x (i + 1) - (i + 1)) = x"
      by simp_all
    have "nat (indexOf_from ys x (i + 1) - i) = Suc (nat (indexOf_from ys x (i + 1) - (i + 1)))"
      using ih(1) by simp
    with False ih show ?thesis by simp
  qed
qed

lemma indexOf_negative_iff:
  "indexOf xs x < 0 \<longleftrightarrow> x \<notin> set xs"
proof
  assume "indexOf xs x < 0"
  then show "x \<notin> set xs"
    using indexOf_from_present [of x xs 0] by (auto simp: indexOf_def)
next
  assume "x \<notin> set xs"
  then show "indexOf xs x < 0"
    by (simp add: indexOf_def indexOf_from_absent)
qed

lemma indexOf_nth:
  "x \<in> set xs \<Longrightarrow> 0 \<le> indexOf xs x \<and> nat (indexOf xs x) < length xs \<and> xs ! nat (indexOf xs x) = x"
  using indexOf_from_present [of x xs 0] by (auto simp: indexOf_def)

text \<open>
  C5: when the screen is not in the toolkit's screen list (\<open>indexOf\<close> is negative), or its
  index is not below the number of views, \<open>screenGeometryChanged\<close> only appends a warning
  to the trace: the list of views and every view are as before.  Otherwise the index found is
  the position of the screen in the list, the view at that index of \<open>m_views\<close> gets the new
  rectangle as its geometry, every other view is unchanged, and nothing else in the state
  changes.
\<close>

theorem screenGeometryChanged_guarded:
  "(scr \<notin> set (screens e) \<longrightarrow>
      screenGeometryChanged e scr geo s =
        s\<lparr>trace := trace s @ [Warning ''Screen not found, not updating geometry'']\<rparr>) \<and>
   (scr \<in> set (screens e) \<and> int (length (m_views s)) \<le> indexOf (screens e) scr \<longrightarrow>
      screenGeometryChanged e scr geo s =
        s\<lparr>trace := trace s @ [Warning ''Screen index out of range, not updating geometry'']\<rparr>) \<and>
   (scr \<in> set (screens e) \<and> indexOf (screens e) scr < int (length (m_views s)) \<longrightarrow>
      screens e ! nat (indexOf (screens e) scr) = scr \<and>
      geometry (views (screenGeometryChanged e scr geo s)
                  (m_views s ! nat (indexOf (screens e) scr))) = geo \<and>
      (\<forall>q. q \<noteq> m_views s ! nat (indexOf (screens e) scr) \<longrightarrow>
           views (screenGeometryChanged e scr geo s) q = views s q) \<and>
      screenGeometryChanged e scr geo s =
        s\<lparr>views := (views s)(m_views s ! nat (indexOf (screens e) scr) :=
              (views s (m_views s ! nat (indexOf (screens e) scr)))\<lparr>geometry := geo\<rparr>)\<rparr>)"
proof (intro conjI impI)
  assume "scr \<notin> set (screens e)"
  then have "indexOf (screens e) scr < 0"
    by (simp add: indexOf_negative_iff)
  then show "screenGeometryChanged e scr geo s =
      s\<lparr>trace := trace s @ [Warning ''Screen not found, not updating geometry'']\<rparr>"
    by (simp add: screenGeometryChanged_def Let_def emit_def)
next
  assume a: "scr \<in> set (screens e) \<and> int (length (m_views s)) \<le> indexOf (screens e) scr"
  then have "\<not> indexOf (screens e) scr < 0"
    by (simp add: indexOf_negative_iff)
  with a show "screenGeometryChanged e scr geo s =
      s\<lparr>trace := trace s @ [Warning ''Screen index out of range, not updating geometry'']\<rparr>"
    by (simp add: screenGeometryChanged_def Let_def emit_def)
next
  assume a: "scr \<in> set (screens e) \<and> indexOf (screens e) scr < int (length (m_views s))"
  then have n: "\<not> indexOf (screens e) scr < 0"
    by (simp add: indexOf_negative_iff)
  from a n have r: "screenGeometryChanged e scr geo s =
      s\<lparr>views := (views s)(m_views s ! nat (indexOf (screens e) scr) :=
            (views s (m_views s ! nat (indexOf (screens e) scr)))\<lparr>geometry := geo\<rparr>)\<rparr>"
    by (simp add: screenGeometryChanged_def Let_def setGeometry_def update_view_def)
  show "screens e ! nat (indexOf (screens e) scr) = scr"
    using a indexOf_nth by simp
  show "geometry (views (screenGeometryChanged e scr geo s)
                  (m_views s ! nat (indexOf (screens e) scr))) = geo"
    by (simp add: r)
  show "\<forall>q. q \<noteq> m_views s ! nat (indexOf (screens e) scr) \<longrightarrow>
           views (screenGeometryChanged e scr geo s) q = views s q"
    by (simp add: r)
  show "screenGeometryChanged e scr geo s =
      s\<lparr>views := (views s)(m_views s ! nat (indexOf (screens e) scr) :=
            (views s (m_views s ! nat (indexOf (screens e) scr)))\<lparr>geometry := geo\<rparr>)\<rparr>"
    by (rule r)
qed

theorem screenGeometryChanged_guarded_witness:
  "screenGeometryChanged ex_env 12 ex_geo ex_app =
     ex_app\<lparr>trace := [Warning ''Screen not found, not updating geometry'']\<rparr> \<and>
   screenGeometryChanged ex_env 11 ex_geo (ex_app\<lparr>m_views := [0]\<rparr>) =
     ex_app\<lparr>m_views := [0], trace := [Warning ''Screen index out of range, not updating geometry'']\<rparr> \<and>
   geometry (views (screenGeometryChanged ex_env 11 ex_geo ex_app) 1) = ex_geo \<and>
   views (screenGeometryChanged ex_env 11 ex_geo ex_app) 0 = views ex_app 0"
proof -
  have i: "indexOf (screens ex_env) 11 = 1"
    by (simp add: indexOf_def ex_env_def)
  have a: "screenGeometryChanged ex_env 12 ex_geo ex_app =
     ex_app\<lparr>trace := [Warning ''Screen not found, not updating geometry'']\<rparr>"
    using screenGeometryChanged_guarded [of 12 ex_env ex_geo ex_app]
    by (simp add: ex_env_def ex_app_def)
  have b: "screenGeometryChanged ex_env 11 ex_geo (ex_app\<lparr>m_views := [0]\<rparr>) =
     ex_app\<lparr>m_views := [0], trace := [Warning ''Screen index out of range, not updating geometry'']\<rparr>"
    using screenGeometryChanged_guarded [of 11 ex_env ex_geo "ex_app\<lparr>m_views := [0]\<rparr>"] i
    by (simp add: ex_env_def ex_app_def)
  have c: "geometry (views (screenGeometryChanged ex_env 11 ex_geo ex_app) 1) = ex_geo \<and>
     views (screenGeometryChanged ex_env 11 ex_geo ex_app) 0 = views ex_app 0"
    using screenGeometryChanged_guarded [of 11 ex_env ex_geo ex_app] i
    by (simp add: ex_env_def ex_app_def)
  from a b c show ?thesis by simp
qed

section \<open>Properties of onSucceeded\<close>

lemma find_first_index:
  "i < length xs \<Longrightarrow> P (xs ! i) \<Longrightarrow> (\<forall>j<i. \<not> P (xs ! j)) \<Longrightarrow> find P xs = Some (xs ! i)"
  by (auto simp: find_Some_iff)

lemma int32_exact:
  "in_int32 x \<Longrightarrow> int32 x = x"
  by (simp add: in_int32_def int32_def)

lemma int32_sub:
  "in_int32 (y - h) \<Longrightarrow> int32 (y + int32 (- h)) = y - h"
proof -
  assume r: "in_int32 (y - h)"
  have "(y + ((- h + 2147483648) mod 4294967296 - 2147483648) + 2147483648) mod 4294967296 =
      (y + (- h + 2147483648) mod 4294967296) mod 4294967296"
    by simp
  also have "\<dots> = (y + (- h + 2147483648)) mod 4294967296"
    by (rule mod_add_right_eq)
  finally have "int32 (y + int32 (- h)) = int32 (y - h)"
    by (simp add: int32_def algebra_simps)
  with r show ?thesis
    by (simp add: int32_exact)
qed

text \<open>
  C6: when no view of \<open>m_views\<close> is on the primary screen, \<open>onSucceeded\<close> leaves the event
  loop at once and starts no animation.  Otherwise it picks the first view of \<open>m_views\<close> that
  is on the primary screen and starts one animation on it, of 500 ms with the OutSine curve,
  from the y coordinate of the view's geometry to the 32-bit result of \<open>y + -height\<close>, which
  is that coordinate minus the geometry's height whenever the difference is a 32-bit value;
  it does not leave the event loop itself.  The animation it started is then running: a value
  change of it is a step that moves the chosen view to the new y coordinate and does not
  leave the event loop, and its end is a step that leaves the event loop.
\<close>

theorem onSucceeded_slide_out:
  "((\<forall>p \<in> set (m_views s). screen (views s p) \<noteq> primaryScreen e) \<longrightarrow>
      onSucceeded e s = s\<lparr>trace := trace s @ [Exit]\<rparr>) \<and>
   (i < length (m_views s) \<and> screen (views s (m_views s ! i)) = primaryScreen e \<and>
    (\<forall>j<i. screen (views s (m_views s ! j)) \<noteq> primaryScreen e) \<longrightarrow>
      (\<exists>a. onSucceeded e s = s\<lparr>animations := animations s @ [a]\<rparr> \<and>
           target a = m_views s ! i \<and> duration a = 500 \<and> easingCurve a = OutSine \<and>
           startValue a = rect_y (geometry (views s (m_views s ! i))) \<and>
           endValue a =
             int32 (rect_y (geometry (views s (m_views s ! i))) +
                    int32 (- rect_h (geometry (views s (m_views s ! i))))) \<and>
           (in_int32 (rect_y (geometry (views s (m_views s ! i))) -
                      rect_h (geometry (views s (m_views s ! i)))) \<longrightarrow>
              endValue a =
                rect_y (geometry (views s (m_views s ! i))) -
                rect_h (geometry (views s (m_views s ! i)))) \<and>
           step e (onSucceeded e s) (animationValueChanged a v (onSucceeded e s)) \<and>
           trace (animationValueChanged a v (onSucceeded e s)) = trace s \<and>
           geometry (views (animationValueChanged a v (onSucceeded e s)) (m_views s ! i)) =
             (geometry (views s (m_views s ! i)))\<lparr>rect_y := v\<rparr> \<and>
           step e (onSucceeded e s) (animationFinished a (onSucceeded e s)) \<and>
           trace (animationFinished a (onSucceeded e s)) = trace s @ [Exit]))"
proof (intro conjI impI)
  assume "\<forall>p \<in> set (m_views s). screen (views s p) \<noteq> primaryScreen e"
  then have "find (\<lambda>view. screen (views s view) = primaryScreen e) (m_views s) = None"
    by (simp add: find_None_iff)
  then show "onSucceeded e s = s\<lparr>trace := trace s @ [Exit]\<rparr>"
    by (simp add: onSucceeded_def emit_def)
next
  assume asm: "i < length (m_views s) \<and> screen (views s (m_views s ! i)) = primaryScreen e \<and>
    (\<forall>j<i. screen (views s (m_views s ! j)) \<noteq> primaryScreen e)"
  let ?m = "m_views s ! i"
  let ?y = "rect_y (geometry (views s ?m))"
  let ?h = "rect_h (geometry (views s ?m))"
  let ?a = "\<lparr>target = ?m, duration = 500, easingCurve = OutSine, startValue = ?y,
             endValue = int32 (?y + int32 (- ?h))\<rparr>"
  let ?s' = "onSucceeded e s"
  from asm have f: "find (\<lambda>view. screen (views s view) = primaryScreen e) (m_views s) = Some ?m"
    by (intro find_first_index) simp_all
  have r: "?s' = s\<lparr>animations := animations s @ [?a]\<rparr>"
    by (simp add: onSucceeded_def f)
  have running: "?a \<in> set (animations ?s')"
    by (simp add: r)
  have fields: "target ?a = ?m \<and> duration ?a = 500 \<and> easingCurve ?a = OutSine \<and>
      startValue ?a = ?y \<and> endValue ?a = int32 (?y + int32 (- ?h))"
    by simp
  have exact: "in_int32 (?y - ?h) \<longrightarrow> endValue ?a = ?y - ?h"
    by (simp add: int32_sub)
  have c1: "step e ?s' (animationValueChanged ?a v ?s')"
    using running by (rule step_animationValueChanged)
  have c2: "trace (animationValueChanged ?a v ?s') = trace s"
    by (simp add: r animationValueChanged_def update_view_def)
  have c3: "geometry (views (animationValueChanged ?a v ?s') ?m) =
      (geometry (views s ?m))\<lparr>rect_y := v\<rparr>"
    by (simp add: r animationValueChanged_def update_view_def)
  have c4: "step e ?s' (animationFinished ?a ?s')"
    using running by (rule step_animationFinished)
  have c5: "trace (animationFinished ?a ?s') = trace s @ [Exit]"
    by (simp add: r animationFinished_def emit_def)
  show "\<exists>a. onSucceeded e s = s\<lparr>animations := animations s @ [a]\<rparr> \<and>
           target a = m_views s ! i \<and> duration a = 500 \<and> easingCurve a = OutSine \<and>
           startValue a = rect_y (geometry (views s (m_views s ! i))) \<and>
           endValue a =
             int32 (rect_y (geometry (views s (m_views s ! i))) +
                    int32 (- rect_h (geometry (views s (m_views s ! i))))) \<and>
           (in_int32 (rect_y (geometry (views s (m_views s ! i))) -
                      rect_h (geometry (views s (m_views s ! i)))) \<longrightarrow>
              endValue a =
                rect_y (geometry (views s (m_views s ! i))) -
                rect_h (geometry (views s (m_views s ! i)))) \<and>
           step e (onSucceeded e s) (animationValueChanged a v (onSucceeded e s)) \<and>
           trace (animationValueChanged a v (onSucceeded e s)) = trace s \<and>
           geometry (views (animationValueChanged a v (onSucceeded e s)) (m_views s ! i)) =
             (geometry (views s (m_views s ! i)))\<lparr>rect_y := v\<rparr> \<and>
           step e (onSucceeded e s) (animationFinished a (onSucceeded e s)) \<and>
           trace (animationFinished a (onSucceeded e s)) = trace s @ [Exit]"
    using r fields exact c1 c2 c3 c4 c5 by (intro exI [of _ ?a]) blast
qed

theorem onSucceeded_slide_out_witness:
  "in_int32 (0 - 1080) \<and>
   animations (onSucceeded ex_env ex_app) =
     [\<lparr>target = 0, duration = 500, easingCurve = OutSine, startValue = 0, endValue = - 1080\<rparr>] \<and>
   trace (onSucceeded ex_env ex_app) = [] \<and>
   onSucceeded (ex_env\<lparr>primaryScreen := Some 13\<rparr>) ex_app = ex_app\<lparr>trace := [Exit]\<rparr>"
proof -
  have y: "rect_y (geometry (views ex_app (m_views ex_app ! 0))) = 0"
    and h: "rect_h (geometry (views ex_app (m_views ex_app ! 0))) = 1080"
    by (simp_all add: ex_app_def ex_view_def)
  have rng: "in_int32 (0 - 1080)"
    by (simp add: in_int32_def)
  have init: "animations ex_app = [] \<and> trace ex_app = []"
    by (simp add: ex_app_def)
  have pre: "0 < length (m_views ex_app) \<and>
      screen (views ex_app (m_views ex_app ! 0)) = primaryScreen ex_env \<and>
      (\<forall>j<0. screen (views ex_app (m_views ex_app ! j)) \<noteq> primaryScreen ex_env)"
    by (simp add: ex_env_def ex_app_def ex_view_def)
  from onSucceeded_slide_out [of ex_app ex_env 0 0] pre
  obtain a where a: "onSucceeded ex_env ex_app = ex_app\<lparr>animations := animations ex_app @ [a]\<rparr>"
    "target a = m_views ex_app ! 0" "duration a = 500" "easingCurve a = OutSine"
    "startValue a = rect_y (geometry (views ex_app (m_views ex_app ! 0)))"
    "in_int32 (rect_y (geometry (views ex_app (m_views ex_app ! 0))) -
               rect_h (geometry (views ex_app (m_views ex_app ! 0)))) \<longrightarrow>
       endValue a = rect_y (geometry (views ex_app (m_views ex_app ! 0))) -
                    rect_h (geometry (views ex_app (m_views ex_app ! 0)))"
    by blast
  from a(6) rng have e: "endValue a = - 1080"
    by (simp add: y h)
  have "a = \<lparr>target = 0, duration = 500, easingCurve = OutSine, startValue = 0, endValue = - 1080\<rparr>"
    using a(2-5) e y by (cases a) (simp add: ex_app_def)
  then have an: "animations (onSucceeded ex_env ex_app) =
     [\<lparr>target = 0, duration = 500, easingCurve = OutSine, startValue = 0, endValue = - 1080\<rparr>] \<and>
     trace (onSucceeded ex_env ex_app) = []"
    using init by (simp add: a(1))
  have b: "onSucceeded (ex_env\<lparr>primaryScreen := Some 13\<rparr>) ex_app = ex_app\<lparr>trace := [Exit]\<rparr>"
    using onSucceeded_slide_out [of ex_app "ex_env\<lparr>primaryScreen := Some 13\<rparr>" 0 0]
    by (simp add: ex_env_def ex_app_def ex_view_def)
  from rng an b show ?thesis by simp
qed

section \<open>Properties of getActiveScreen and eventFilter\<close>

text \<open>
  C10: \<open>getActiveScreen\<close> returns null exactly when \<open>m_views\<close> is empty.  For a non-empty
  list it returns the view at the first index whose geometry contains the cursor position,
  or the first view of the list when no view's geometry contains it.
\<close>

theorem getActiveScreen_result:
  "(getActiveScreen e s = None \<longleftrightarrow> m_views s = []) \<and>
   (m_views s \<noteq> [] \<longrightarrow>
      (\<exists>i < length (m_views s).
          getActiveScreen e s = Some (m_views s ! i) \<and>
          contains (geometry (views s (m_views s ! i))) (cursor e) \<and>
          (\<forall>j<i. \<not> contains (geometry (views s (m_views s ! j))) (cursor e))) \<or>
      ((\<forall>p \<in> set (m_views s). \<not> contains (geometry (views s p)) (cursor e)) \<and>
       getActiveScreen e s = Some (hd (m_views s))))"
proof -
  let ?P = "\<lambda>view. contains (geometry (views s view)) (cursor e)"
  have n: "getActiveScreen e s = None \<longleftrightarrow> m_views s = []"
    by (simp add: getActiveScreen_def split: option.splits)
  have c: "(\<exists>i < length (m_views s).
          getActiveScreen e s = Some (m_views s ! i) \<and> ?P (m_views s ! i) \<and>
          (\<forall>j<i. \<not> ?P (m_views s ! j))) \<or>
      ((\<forall>p \<in> set (m_views s). \<not> ?P p) \<and> getActiveScreen e s = Some (hd (m_views s)))"
    if ne: "m_views s \<noteq> []"
  proof (cases "find ?P (m_views s)")
    case None
    then have "\<forall>p \<in> set (m_views s). \<not> ?P p"
      by (simp add: find_None_iff)
    moreover have "getActiveScreen e s = Some (hd (m_views s))"
      using ne None by (simp add: getActiveScreen_def)
    ultimately show ?thesis by blast
  next
    case (Some v)
    then obtain i where "i < length (m_views s)" "?P (m_views s ! i)" "v = m_views s ! i"
      "\<forall>j<i. \<not> ?P (m_views s ! j)"
      unfolding find_Some_iff by blast
    moreover have "getActiveScreen e s = Some v"
      using ne Some by (simp add: getActiveScreen_def)
    ultimately show ?thesis by blast
  qed
  from n c show ?thesis by blast
qed

theorem getActiveScreen_result_witness:
  "m_views ex_app \<noteq> [] \<and> getActiveScreen ex_env ex_app = Some 1 \<and>
   getActiveScreen (ex_env\<lparr>cursor := \<lparr>pt_x = - 5, pt_y = 0\<rparr>\<rparr>) ex_app = Some 0 \<and>
   getActiveScreen ex_env (ex_app\<lparr>m_views := []\<rparr>) = None"
proof -
  have ne: "m_views ex_app \<noteq> []"
    by (simp add: ex_app_def)
  have a: "getActiveScreen ex_env ex_app = Some 1"
    using getActiveScreen_result [of ex_env ex_app] ne
    by (simp add: getActiveScreen_def ex_env_def ex_app_def ex_view_def contains_def)
  have b: "getActiveScreen (ex_env\<lparr>cursor := \<lparr>pt_x = - 5, pt_y = 0\<rparr>\<rparr>) ex_app = Some 0"
    using getActiveScreen_result [of "ex_env\<lparr>cursor := \<lparr>pt_x = - 5, pt_y = 0\<rparr>\<rparr>" ex_app] ne
    by (simp add: getActiveScreen_def ex_env_def ex_app_def ex_view_def contains_def)
  have c: "getActiveScreen ex_env (ex_app\<lparr>m_views := []\<rparr>) = None"
    using getActiveScreen_result [of ex_env "ex_app\<lparr>m_views := []\<rparr>"] by simp
  from ne a b c show ?thesis by simp
qed

text \<open>
  C8: for an event of type \<open>MouseButtonPress\<close>, whatever the receiving object,
  \<open>eventFilter\<close> returns false and leaves the event as it is.  With an empty \<open>m_views\<close> it
  does nothing; otherwise its one effect is to request activation of the active screen: the
  first view whose geometry contains the cursor, or the first view of the list when there is
  none.
\<close>

theorem eventFilter_mouse_press:
  "etype event = MouseButtonPress \<Longrightarrow>
   eventFilter (Suc depth) e obj event s =
     Some (False, event,
       (case m_views s of
          [] \<Rightarrow> s
        | first # rest \<Rightarrow>
            s\<lparr>trace := trace s @
                [RequestActivate
                   (case find (\<lambda>view. contains (geometry (views s view)) (cursor e)) (m_views s) of
                      Some view \<Rightarrow> view
                    | None \<Rightarrow> first)]\<rparr>))"
  by (cases "m_views s")
     (simp_all add: eventFilter_body_def getActiveScreen_def emit_def split: option.splits)

theorem eventFilter_mouse_press_witness:
  "etype ex_click = MouseButtonPress \<and>
   eventFilter 1 ex_env (ViewObj 0) ex_click ex_app =
     Some (False, ex_click, ex_app\<lparr>trace := [RequestActivate 1]\<rparr>)"
proof -
  have t: "etype ex_click = MouseButtonPress"
    by (simp add: ex_click_def)
  have "eventFilter (Suc 0) ex_env (ViewObj 0) ex_click ex_app =
     Some (False, ex_click, ex_app\<lparr>trace := [RequestActivate 1]\<rparr>)"
    unfolding eventFilter_mouse_press [OF t, of 0 ex_env "ViewObj 0" ex_app]
    by (simp add: ex_env_def ex_app_def ex_view_def contains_def)
  with t show ?thesis by simp
qed

text \<open>
  C9: \<open>eventFilter\<close>, run at any positive nesting bound, returns, and the flag it returns is
  true exactly when the event is a \<open>KeyRelease\<close> whose key is \<open>Key_Escape\<close>, whatever the
  receiving object and the state.
\<close>

theorem eventFilter_consumes_escape_release_only:
  "\<exists>event' s'. eventFilter (Suc depth) e obj event s =
      Some (etype event = KeyRelease \<and> key event = Key_Escape, event', s')"
  by (simp add: eventFilter_body_def shareEvent_result split: option.splits)

theorem eventFilter_consumes_escape_release_only_witness:
  "(\<exists>event' s'. eventFilter 1 ex_env (ViewObj 1) ex_escape_release ex_app = Some (True, event', s')) \<and>
   (\<exists>event' s'. eventFilter 1 ex_env (ViewObj 1) (ex_escape_release\<lparr>key := 65\<rparr>) ex_app =
      Some (False, event', s')) \<and>
   (\<exists>event' s'. eventFilter 1 ex_env (ViewObj 1) (ex_escape_release\<lparr>etype := KeyPress\<rparr>) ex_app =
      Some (False, event', s')) \<and>
   (\<exists>event' s'. eventFilter 1 ex_env (ViewObj 1) (ex_escape_release\<lparr>etype := Show\<rparr>) ex_app =
      Some (False, event', s'))"
  using eventFilter_consumes_escape_release_only [of 0 ex_env "ViewObj 1" ex_escape_release ex_app]
    eventFilter_consumes_escape_release_only
      [of 0 ex_env "ViewObj 1" "ex_escape_release\<lparr>key := 65\<rparr>" ex_app]
    eventFilter_consumes_escape_release_only
      [of 0 ex_env "ViewObj 1" "ex_escape_release\<lparr>etype := KeyPress\<rparr>" ex_app]
    eventFilter_consumes_escape_release_only
      [of 0 ex_env "ViewObj 1" "ex_escape_release\<lparr>etype := Show\<rparr>" ex_app]
  by (simp add: ex_escape_release_def Key_Escape_def)

section \<open>The keyboard grab\<close>

text \<open>
  From one state to another no grab is released when the trace has only grown and none of the
  calls added to it is \<open>setKeyboardGrabEnabled\<close> with \<open>false\<close>.
\<close>

definition no_release :: "app \<Rightarrow> app \<Rightarrow> bool" where
  "no_release s s' =
     (\<exists>added. trace s' = trace s @ added \<and>
              (\<forall>p. SetKeyboardGrabEnabled p False \<notin> set added))"

lemma no_release_refl: "no_release s s"
  by (simp add: no_release_def)

lemma no_release_trans: "no_release s s' \<Longrightarrow> no_release s' s'' \<Longrightarrow> no_release s s''"
proof -
  assume "no_release s s'" "no_release s' s''"
  then obtain xs ys where "trace s' = trace s @ xs" "trace s'' = trace s' @ ys"
    "\<forall>p. SetKeyboardGrabEnabled p False \<notin> set xs" "\<forall>p. SetKeyboardGrabEnabled p False \<notin> set ys"
    unfolding no_release_def by blast
  then have "trace s'' = trace s @ (xs @ ys) \<and>
      (\<forall>p. SetKeyboardGrabEnabled p False \<notin> set (xs @ ys))"
    by simp
  then show ?thesis
    unfolding no_release_def by blast
qed

lemma no_release_same_trace: "trace s' = trace s \<Longrightarrow> no_release s s'"
  by (simp add: no_release_def)

lemma no_release_emit:
  "(\<And>p. x \<noteq> SetKeyboardGrabEnabled p False) \<Longrightarrow> no_release s (emit x s)"
  by (auto simp: no_release_def emit_def)

lemma no_release_update_view: "no_release s (update_view p f s)"
  by (simp add: no_release_def update_view_def)

lemma no_release_fold:
  "(\<And>x t. no_release t (g x t)) \<Longrightarrow> no_release s (fold g xs s)"
proof (induction xs arbitrary: s)
  case Nil
  then show ?case by (simp add: no_release_refl)
next
  case (Cons x xs)
  have "no_release s (g x s)" by (rule Cons.prems)
  moreover have "no_release (g x s) (fold g xs (g x s))"
    by (rule Cons.IH) (rule Cons.prems)
  ultimately have "no_release s (fold g xs (g x s))"
    by (rule no_release_trans)
  then show ?case by simp
qed

lemma no_release_desktopResized: "no_release s (desktopResized e s)"
proof -
  let ?added = "map DeleteLater (rev (drop (length (screens e)) (m_views s))) @
      map Raise (m_views (desktopResized e s))"
  have "trace (desktopResized e s) = trace s @ ?added"
    by (rule desktopResized_trace)
  moreover have "\<forall>p. SetKeyboardGrabEnabled p False \<notin> set ?added"
    by auto
  ultimately show ?thesis
    unfolding no_release_def by blast
qed

lemma no_release_initialViewSetup: "no_release s (initialViewSetup e s)"
proof -
  have "no_release s
      (fold (\<lambda>scr s. s\<lparr>geometryConnections := geometryConnections s @ [scr]\<rparr>) (screens e) s)"
    by (rule no_release_fold) (simp add: no_release_def)
  then show ?thesis
    unfolding initialViewSetup_def
    by (rule no_release_trans) (rule no_release_desktopResized)
qed

lemma no_release_onScreenAdded: "no_release s (onScreenAdded e scr s)"
proof -
  have "no_release s (s\<lparr>geometryConnections := geometryConnections s @ [scr]\<rparr>)"
    by (simp add: no_release_def)
  then show ?thesis
    unfolding onScreenAdded_def
    by (rule no_release_trans) (rule no_release_desktopResized)
qed

lemma no_release_screenGeometryChanged: "no_release s (screenGeometryChanged e scr geo s)"
  by (simp add: screenGeometryChanged_def Let_def setGeometry_def no_release_emit
        no_release_update_view)

lemma no_release_onSucceeded: "no_release s (onSucceeded e s)"
  by (cases "find (\<lambda>view. screen (views s view) = primaryScreen e) (m_views s)")
     (simp_all add: onSucceeded_def no_release_emit no_release_same_trace)

lemma no_release_animationValueChanged: "no_release s (animationValueChanged a v s)"
  by (simp add: animationValueChanged_def no_release_update_view)

lemma no_release_animationFinished: "no_release s (animationFinished a s)"
  by (simp add: animationFinished_def no_release_emit)

lemma getFocus_fold:
  "\<not> m_testing s \<Longrightarrow>
   fold (\<lambda>view s. if \<not> m_testing s then setKeyboardGrabEnabled view True s else s) vs s =
     s\<lparr>trace := trace s @ map (\<lambda>view. SetKeyboardGrabEnabled view True) vs\<rparr>"
proof (induction vs arbitrary: s)
  case Nil
  then show ?case by simp
next
  case (Cons v vs)
  let ?t = "setKeyboardGrabEnabled v True s"
  have t: "\<not> m_testing ?t"
    using Cons.prems by (simp add: setKeyboardGrabEnabled_def emit_def)
  show ?case
    using Cons.prems Cons.IH [OF t]
    by (simp add: setKeyboardGrabEnabled_def emit_def)
qed

lemma getFocus_testing:
  "m_testing s \<Longrightarrow>
   fold (\<lambda>view s. if \<not> m_testing s then setKeyboardGrabEnabled view True s else s) vs s = s"
  by (induction vs) simp_all

lemma getFocus_grabbing:
  "\<not> m_testing s \<Longrightarrow> getActiveScreen e s = Some a \<Longrightarrow>
   getFocus e s =
     s\<lparr>trace := trace s @ map (\<lambda>view. SetKeyboardGrabEnabled view True) (m_views s) @
                 [SetKeyboardGrabEnabled a True, RequestActivate a]\<rparr>"
  by (simp add: getFocus_def Let_def getFocus_fold setKeyboardGrabEnabled_def emit_def)

lemma getFocus_in_testing:
  "m_testing s \<Longrightarrow> getActiveScreen e s = Some a \<Longrightarrow>
   getFocus e s = s\<lparr>trace := trace s @ [RequestActivate a]\<rparr>"
  by (simp add: getFocus_def Let_def getFocus_testing emit_def)

lemma getActiveScreen_Some:
  "m_views s \<noteq> [] \<Longrightarrow> \<exists>a. getActiveScreen e s = Some a"
  by (cases "find (\<lambda>view. contains (geometry (views s view)) (cursor e)) (m_views s)")
     (simp_all add: getActiveScreen_def)

lemma no_release_getFocus: "no_release s (getFocus e s)"
proof (cases "getActiveScreen e s")
  case None
  then show ?thesis by (simp add: getFocus_def no_release_refl)
next
  case (Some a)
  show ?thesis
  proof (cases "m_testing s")
    case True
    then show ?thesis
      using Some by (simp add: getFocus_in_testing no_release_def)
  next
    case False
    then show ?thesis
      using Some by (auto simp: getFocus_grabbing no_release_def)
  qed
qed

lemma no_release_markViewsAsVisible: "no_release s (markViewsAsVisible view s)"
  by (simp add: no_release_def markViewsAsVisible_def Let_def emit_def update_view_def)

lemma no_release_eventFilter:
  "eventFilter depth e obj event s = Some (r, event', s') \<Longrightarrow> no_release s s'"
proof (cases depth)
  case 0
  assume "eventFilter depth e obj event s = Some (r, event', s')"
  with 0 show ?thesis by simp
next
  case (Suc d)
  assume "eventFilter depth e obj event s = Some (r, event', s')"
  with Suc have "\<exists>added. trace s' = trace s @ added \<and>
      (\<forall>x \<in> set added. (\<exists>w. x = RequestActivate w) \<or> (\<exists>w ev b. x = SendEvent w ev b))"
    by (auto simp: eventFilter_body_def shareEvent_result emit_def
          split: if_splits option.splits)
  then show ?thesis
    unfolding no_release_def by blast
qed

lemma no_release_destructor: "no_release s (destructor s)"
proof -
  let ?s1 = "fold (\<lambda>view s.
                  (case activeFocusItem (views s view) of
                     Some focusItem \<Rightarrow> update_view view (\<lambda>v. v\<lparr>activeFocusItem := None\<rparr>) s
                   | None \<Rightarrow> s)) (m_views s) s"
  have "no_release s ?s1"
    by (rule no_release_fold)
       (simp add: no_release_refl no_release_update_view split: option.splits)
  moreover have "no_release ?s1
      (fold (\<lambda>view s. update_view view (\<lambda>v. v\<lparr>deleted := True\<rparr>) s) (m_views ?s1) ?s1)"
    by (rule no_release_fold) (simp add: no_release_update_view)
  ultimately show ?thesis
    unfolding destructor_def Let_def by (rule no_release_trans)
qed

lemma step_no_release: "step e s s' \<Longrightarrow> no_release s s'"
proof (induction rule: step.induct)
  case (step_eventFilter s depth obj event r event' s')
  then show ?case by (simp add: no_release_eventFilter)
qed (simp_all add: no_release_initialViewSetup no_release_desktopResized no_release_onScreenAdded
      no_release_screenGeometryChanged no_release_onSucceeded no_release_animationValueChanged
      no_release_animationFinished no_release_getFocus no_release_markViewsAsVisible
      no_release_destructor)

lemma steps_no_release: "steps s s' \<Longrightarrow> no_release s s'"
proof (induction rule: steps.induct)
  case (steps_none s)
  show ?case by (rule no_release_refl)
next
  case (steps_more s s' e s'')
  from steps_more.IH step_no_release [OF steps_more.hyps(2)] show ?case
    by (rule no_release_trans)
qed

lemma steps_add_no_release:
  "steps s s' \<Longrightarrow> SetKeyboardGrabEnabled p False \<notin> set (drop (length (trace s)) (trace s'))"
proof -
  assume "steps s s'"
  then have "no_release s s'" by (rule steps_no_release)
  then obtain added where "trace s' = trace s @ added"
    "\<forall>p. SetKeyboardGrabEnabled p False \<notin> set added"
    unfolding no_release_def by blast
  then show ?thesis by simp
qed

text \<open>
  The program calls \<open>setKeyboardGrabEnabled\<close> with \<open>true\<close> only.  So the second half of C7 as
  it is written, that some later operation sets the keyboard grab disabled, has no instance:
  there are no state, window and sequence of operations after \<open>getFocus\<close> in which a call of
  \<open>setKeyboardGrabEnabled\<close> with \<open>false\<close> is made.
\<close>

theorem getFocus_grab_released_counterexample:
  "\<not> (\<exists>e s s' p. steps (getFocus e s) s' \<and>
          SetKeyboardGrabEnabled p False \<in>
            set (drop (length (trace (getFocus e s))) (trace s')))"
  using steps_add_no_release by blast

text \<open>
  C7, amended: outside testing mode \<open>getFocus\<close> enables the keyboard grab on every view of
  \<open>m_views\<close>, in list order, and then on the active screen, and requests its activation; in
  testing mode it only requests the activation; with no views it does nothing.  No operation
  of the program sets the keyboard grab disabled: whatever sequence of operations runs from
  a state on, none of the calls it adds to the trace is \<open>setKeyboardGrabEnabled\<close> with
  \<open>false\<close>.
\<close>

theorem getFocus_grabs_and_nothing_releases:
  "(\<not> m_testing s \<and> getActiveScreen e s = Some a \<longrightarrow>
      getFocus e s =
        s\<lparr>trace := trace s @ map (\<lambda>view. SetKeyboardGrabEnabled view True) (m_views s) @
                    [SetKeyboardGrabEnabled a True, RequestActivate a]\<rparr>) \<and>
   (m_testing s \<and> getActiveScreen e s = Some a \<longrightarrow>
      getFocus e s = s\<lparr>trace := trace s @ [RequestActivate a]\<rparr>) \<and>
   (m_views s = [] \<longrightarrow> getFocus e s = s) \<and>
   (m_views s \<noteq> [] \<longrightarrow> (\<exists>w. getActiveScreen e s = Some w)) \<and>
   (steps s s' \<longrightarrow>
      (\<forall>p. SetKeyboardGrabEnabled p False \<notin> set (drop (length (trace s)) (trace s'))))"
proof (intro conjI impI allI)
  assume "\<not> m_testing s \<and> getActiveScreen e s = Some a"
  then show "getFocus e s =
        s\<lparr>trace := trace s @ map (\<lambda>view. SetKeyboardGrabEnabled view True) (m_views s) @
                    [SetKeyboardGrabEnabled a True, RequestActivate a]\<rparr>"
    by (simp add: getFocus_grabbing)
next
  assume "m_testing s \<and> getActiveScreen e s = Some a"
  then show "getFocus e s = s\<lparr>trace := trace s @ [RequestActivate a]\<rparr>"
    by (simp add: getFocus_in_testing)
next
  assume "m_views s = []"
  then show "getFocus e s = s"
    by (simp add: getFocus_def getActiveScreen_def)
next
  assume "m_views s \<noteq> []"
  then show "\<exists>w. getActiveScreen e s = Some w"
    by (rule getActiveScreen_Some)
next
  fix p
  assume "steps s s'"
  then show "SetKeyboardGrabEnabled p False \<notin> set (drop (length (trace s)) (trace s'))"
    by (rule steps_add_no_release)
qed

theorem getFocus_grabs_and_nothing_releases_witness:
  "\<not> m_testing ex_app \<and> getActiveScreen ex_env ex_app = Some 1 \<and>
   trace (getFocus ex_env ex_app) =
     [SetKeyboardGrabEnabled 0 True, SetKeyboardGrabEnabled 1 True, SetKeyboardGrabEnabled 2 True,
      SetKeyboardGrabEnabled 1 True, RequestActivate 1] \<and>
   trace (getFocus ex_env (ex_app\<lparr>m_testing := True\<rparr>)) = [RequestActivate 1] \<and>
   getFocus ex_env (ex_app\<lparr>m_views := []\<rparr>) = ex_app\<lparr>m_views := []\<rparr> \<and>
   steps (getFocus ex_env ex_app) (destructor (desktopResized ex_env (getFocus ex_env ex_app))) \<and>
   SetKeyboardGrabEnabled 2 False \<notin>
     set (drop (length (trace (getFocus ex_env ex_app)))
            (trace (destructor (desktopResized ex_env (getFocus ex_env ex_app)))))"
proof -
  let ?f = "getFocus ex_env ex_app"
  let ?s' = "destructor (desktopResized ex_env ?f)"
  have t: "\<not> m_testing ex_app" by (simp add: ex_app_def)
  have a: "getActiveScreen ex_env ex_app = Some 1"
    by (simp add: getActiveScreen_def ex_env_def ex_app_def ex_view_def contains_def)
  have a': "getActiveScreen ex_env (ex_app\<lparr>m_testing := True\<rparr>) = Some 1"
    by (simp add: getActiveScreen_def ex_env_def ex_app_def ex_view_def contains_def)
  have init: "trace ex_app = [] \<and> m_views ex_app = [0, 1, 2]"
    by (simp add: ex_app_def)
  have g: "trace ?f =
     [SetKeyboardGrabEnabled 0 True, SetKeyboardGrabEnabled 1 True, SetKeyboardGrabEnabled 2 True,
      SetKeyboardGrabEnabled 1 True, RequestActivate 1]"
    using getFocus_grabs_and_nothing_releases [of ex_app ex_env 1] t a init by simp
  have g': "trace (getFocus ex_env (ex_app\<lparr>m_testing := True\<rparr>)) = [RequestActivate 1]"
    using getFocus_grabs_and_nothing_releases [of "ex_app\<lparr>m_testing := True\<rparr>" ex_env 1] a' init
    by simp
  have n: "getFocus ex_env (ex_app\<lparr>m_views := []\<rparr>) = ex_app\<lparr>m_views := []\<rparr>"
    using getFocus_grabs_and_nothing_releases [of "ex_app\<lparr>m_views := []\<rparr>" ex_env] by simp
  have s1: "step ex_env ?f (desktopResized ex_env ?f)"
    by (rule step_desktopResized)
  have s2: "step ex_env (desktopResized ex_env ?f) ?s'"
    by (rule step_destructor)
  have st: "steps ?f ?s'"
    by (rule steps_more [OF steps_more [OF steps_none s1] s2])
  have k: "SetKeyboardGrabEnabled 2 False \<notin> set (drop (length (trace ?f)) (trace ?s'))"
    using getFocus_grabs_and_nothing_releases [of ?f ex_env _ ?s'] st by blast
  from t a g g' n st k show ?thesis by simp
qed

section \<open>Invariants of the reachable states\<close>

text \<open>
  The hypotheses used above, that the view pointers of \<open>m_views\<close> are distinct and allocated
  and that the event filter is installed whenever a callback starts, hold in the state the
  constructor builds and are kept by every step.
\<close>

definition same_frame :: "app \<Rightarrow> app \<Rightarrow> bool" where
  "same_frame s s' =
     (m_views s' = m_views s \<and> next_view s' = next_view s \<and>
      filterInstalled s' = filterInstalled s)"

lemma same_frame_refl: "same_frame s s"
  by (simp add: same_frame_def)

lemma same_frame_trans: "same_frame s s' \<Longrightarrow> same_frame s' s'' \<Longrightarrow> same_frame s s''"
  by (simp add: same_frame_def)

lemma same_frame_emit: "same_frame s (emit x s)"
  by (simp add: same_frame_def emit_def)

lemma same_frame_update_view: "same_frame s (update_view p f s)"
  by (simp add: same_frame_def update_view_def)

lemma same_frame_fold:
  "(\<And>x t. same_frame t (g x t)) \<Longrightarrow> same_frame s (fold g xs s)"
proof (induction xs arbitrary: s)
  case Nil
  then show ?case by (simp add: same_frame_refl)
next
  case (Cons x xs)
  have "same_frame s (g x s)" by (rule Cons.prems)
  moreover have "same_frame (g x s) (fold g xs (g x s))"
    by (rule Cons.IH) (rule Cons.prems)
  ultimately have "same_frame s (fold g xs (g x s))"
    by (rule same_frame_trans)
  then show ?case by simp
qed

lemma same_frame_wf: "same_frame s s' \<Longrightarrow> wf s \<Longrightarrow> wf s'"
  by (simp add: same_frame_def wf_def)

lemma removeUseless_filterInstalled:
  "filterInstalled (removeUseless n s) = filterInstalled s"
proof (induction n s rule: removeUseless.induct)
  case (1 n s)
  then show ?case
    by (cases "length (m_views s) > n") (simp_all add: emit_def removeUseless.simps [of n s])
qed

lemma extendViews_frame:
  "next_view (extendViews e i n s) = next_view s + (n - i) \<and>
   filterInstalled (extendViews e i n s) = filterInstalled s"
proof (induction e i n s rule: extendViews.induct)
  case (1 e i n s)
  show ?case
  proof (cases "i < n")
    case True
    with 1 show ?thesis
      by (simp add: extendViews.simps [of e i n s] createView_def Let_def)
  next
    case False
    then show ?thesis by (simp add: extendViews.simps [of e i n s])
  qed
qed

lemma same_frame_showView: "same_frame s (showView e i s)"
  by (simp add: same_frame_def showView_def Let_def emit_def update_view_def)

lemma same_frame_updateViews: "same_frame s (updateViews e i n s)"
proof (induction e i n s rule: updateViews.induct)
  case (1 e i n s)
  show ?case
  proof (cases "i < n")
    case True
    with 1 have "same_frame (showView e i s) (updateViews e i n s)"
      by (simp add: updateViews.simps [of e i n s])
    with same_frame_showView show ?thesis
      by (rule same_frame_trans)
  next
    case False
    then show ?thesis
      by (simp add: updateViews.simps [of e i n s] same_frame_refl)
  qed
qed

lemma desktopResized_next_view:
  "next_view (desktopResized e s) =
     next_view s + (length (screens e) - length (m_views s))"
proof -
  let ?n = "length (screens e)"
  let ?s1 = "removeUseless ?n s"
  let ?s2 = "extendViews e (length (m_views ?s1)) ?n ?s1"
  have "next_view (updateViews e 0 ?n ?s2) = next_view ?s2"
    using same_frame_updateViews [of ?s2 e 0 ?n] by (simp add: same_frame_def)
  then show ?thesis
    by (simp add: desktopResized_def Let_def extendViews_frame removeUseless_next_view
          removeUseless_m_views min_def)
qed

lemma desktopResized_filterInstalled:
  "filterInstalled (desktopResized e s) = filterInstalled s"
proof -
  let ?n = "length (screens e)"
  let ?s1 = "removeUseless ?n s"
  let ?s2 = "extendViews e (length (m_views ?s1)) ?n ?s1"
  have "filterInstalled (updateViews e 0 ?n ?s2) = filterInstalled ?s2"
    using same_frame_updateViews [of ?s2 e 0 ?n] by (simp add: same_frame_def)
  then show ?thesis
    by (simp add: desktopResized_def Let_def extendViews_frame removeUseless_filterInstalled)
qed

lemma wf_desktopResized:
  assumes "wf s"
  shows "wf (desktopResized e s)"
proof -
  have "\<forall>p \<in> set (m_views s). p < next_view s"
    using assms by (simp add: wf_def list_all_iff)
  then have "\<forall>p \<in> set (take (length (screens e)) (m_views s)). p < next_view s"
    by (meson in_set_takeD)
  then have "\<forall>p \<in> set (m_views (desktopResized e s)). p < next_view (desktopResized e s)"
    by (auto simp: desktopResized_m_views desktopResized_next_view)
  with wf_desktopResized_m_views [OF assms, of e] show ?thesis
    by (simp add: wf_def list_all_iff)
qed

lemma same_frame_screenGeometryChanged: "same_frame s (screenGeometryChanged e scr geo s)"
  by (simp add: screenGeometryChanged_def Let_def setGeometry_def same_frame_emit
        same_frame_update_view)

lemma same_frame_onSucceeded: "same_frame s (onSucceeded e s)"
  by (cases "find (\<lambda>view. screen (views s view) = primaryScreen e) (m_views s)")
     (simp_all add: onSucceeded_def same_frame_def emit_def)

lemma same_frame_getFocus: "same_frame s (getFocus e s)"
proof (cases "getActiveScreen e s")
  case None
  then show ?thesis by (simp add: getFocus_def same_frame_refl)
next
  case (Some a)
  let ?s1 = "fold (\<lambda>view s. if \<not> m_testing s then setKeyboardGrabEnabled view True s else s)
               (m_views s) s"
  let ?s2 = "if \<not> m_testing ?s1 then setKeyboardGrabEnabled a True ?s1 else ?s1"
  have 1: "same_frame s ?s1"
    by (rule same_frame_fold)
       (simp add: same_frame_refl setKeyboardGrabEnabled_def same_frame_emit)
  have 2: "same_frame ?s1 ?s2"
    by (simp add: same_frame_refl setKeyboardGrabEnabled_def same_frame_emit)
  have 3: "same_frame ?s2 (emit (RequestActivate a) ?s2)"
    by (rule same_frame_emit)
  have r: "getFocus e s = emit (RequestActivate a) ?s2"
    using Some by (simp add: getFocus_def Let_def)
  have "same_frame s ?s2"
    using 1 2 by (rule same_frame_trans)
  then have "same_frame s (emit (RequestActivate a) ?s2)"
    using 3 by (rule same_frame_trans)
  then show ?thesis
    by (simp only: r)
qed

lemma same_frame_markViewsAsVisible: "same_frame s (markViewsAsVisible view s)"
  by (simp add: same_frame_def markViewsAsVisible_def Let_def emit_def update_view_def)

lemma eventFilter_frame:
  assumes "eventFilter depth e obj event s = Some (r, event', s')" "filterInstalled s"
  shows "m_views s' = m_views s \<and> next_view s' = next_view s \<and> filterInstalled s'"
proof (cases depth)
  case 0
  with assms show ?thesis by simp
next
  case (Suc d)
  with assms show ?thesis
    by (auto simp: eventFilter_body_def shareEvent_result emit_def
          split: if_splits option.splits)
qed

lemma same_frame_destructor: "same_frame s (destructor s)"
proof -
  let ?s1 = "fold (\<lambda>view s.
                  (case activeFocusItem (views s view) of
                     Some focusItem \<Rightarrow> update_view view (\<lambda>v. v\<lparr>activeFocusItem := None\<rparr>) s
                   | None \<Rightarrow> s)) (m_views s) s"
  have "same_frame s ?s1"
    by (rule same_frame_fold)
       (simp add: same_frame_refl same_frame_update_view split: option.splits)
  moreover have "same_frame ?s1
      (fold (\<lambda>view s. update_view view (\<lambda>v. v\<lparr>deleted := True\<rparr>) s) (m_views ?s1) ?s1)"
    by (rule same_frame_fold) (simp add: same_frame_update_view)
  ultimately show ?thesis
    unfolding destructor_def Let_def by (rule same_frame_trans)
qed

lemma connections_fold_frame:
  "same_frame s
     (fold (\<lambda>scr s. s\<lparr>geometryConnections := geometryConnections s @ [scr]\<rparr>) xs s)"
  by (rule same_frame_fold) (simp add: same_frame_def)

lemma step_invariant:
  assumes "step e s s'" "wf s \<and> filterInstalled s"
  shows "wf s' \<and> filterInstalled s'"
  using assms
proof (induction rule: step.induct)
  case (step_initialViewSetup s)
  let ?t = "fold (\<lambda>scr s. s\<lparr>geometryConnections := geometryConnections s @ [scr]\<rparr>) (screens e) s"
  have "wf ?t \<and> filterInstalled ?t"
    using connections_fold_frame [of s "screens e"] step_initialViewSetup
    by (simp add: same_frame_def wf_def)
  then show ?case
    by (simp add: initialViewSetup_def wf_desktopResized desktopResized_filterInstalled)
next
  case (step_desktopResized s)
  then show ?case
    by (simp add: wf_desktopResized desktopResized_filterInstalled)
next
  case (step_onScreenAdded s scr)
  have "wf (s\<lparr>geometryConnections := geometryConnections s @ [scr]\<rparr>)"
    using step_onScreenAdded by (simp add: wf_def)
  with step_onScreenAdded show ?case
    by (simp add: onScreenAdded_def wf_desktopResized desktopResized_filterInstalled)
next
  case (step_screenGeometryChanged s scr geo)
  with same_frame_screenGeometryChanged [of s e scr geo] show ?case
    by (simp add: same_frame_def wf_def)
next
  case (step_onSucceeded s)
  with same_frame_onSucceeded [of s e] show ?case
    by (simp add: same_frame_def wf_def)
next
  case (step_animationValueChanged a s v)
  then show ?case
    by (simp add: animationValueChanged_def update_view_def wf_def)
next
  case (step_animationFinished a s)
  then show ?case
    by (simp add: animationFinished_def emit_def wf_def)
next
  case (step_getFocus s)
  with same_frame_getFocus [of s e] show ?case
    by (simp add: same_frame_def wf_def)
next
  case (step_markViewsAsVisible s view)
  with same_frame_markViewsAsVisible [of s view] show ?case
    by (simp add: same_frame_def wf_def)
next
  case (step_eventFilter s depth obj event r event' s')
  with eventFilter_frame [OF step_eventFilter.hyps(2) step_eventFilter.hyps(1)] show ?case
    by (simp add: wf_def)
next
  case (step_destructor s)
  with same_frame_destructor [of s] show ?case
    by (simp add: same_frame_def wf_def)
qed

lemma Application_new_invariant:
  "wf (Application_new testing) \<and> filterInstalled (Application_new testing)"
  by (simp add: Application_new_def wf_def)

lemma reachable_invariant:
  "steps (Application_new testing) s \<Longrightarrow> wf s \<and> filterInstalled s"
proof (induction "Application_new testing" s rule: steps.induct)
  case steps_none
  show ?case by (rule Application_new_invariant)
next
  case (steps_more s' e s'')
  from steps_more.hyps(3) steps_more.hyps(2) show ?case
    by (rule step_invariant)
qed

end
